theory Spec2Isabelle
  imports Complex_Main "HOL-Library.Log_Nat"
begin

section \<open>Python values, errors and the outside world\<close>

text \<open>
  The script \<^verbatim>\<open>scripts/generate_survey_visual.py\<close> is a linear pipeline:
  \<^verbatim>\<open>load_rows\<close>, \<^verbatim>\<open>summarize\<close> (once per question), \<^verbatim>\<open>make_svg\<close>, and a file write in
  \<^verbatim>\<open>main\<close>. Every function is embedded below under its own name. An exception of
  the source is a value \<open>Inl e\<close> of the result type.

  A Python \<^verbatim>\<open>str\<close> is a \<^typ>\<open>string\<close>, read as a sequence of code points below 256.
  A cell of a row that \<^verbatim>\<open>csv.DictReader\<close> yields is either a string or \<^verbatim>\<open>None\<close>
  (the reader's \<^verbatim>\<open>restval\<close>, used when a line has fewer fields than the header),
  and a row is a dictionary from column names to cells.
\<close>

datatype py_error =
    KeyError
  | AttributeError
  | ZeroDivisionError
  | OverflowError
  | OSError
  | CsvError

datatype cell = PyNone | PyStr string

type_synonym row = "string \<rightharpoonup> cell"

text \<open>
  The world the script runs in: the text files it can read, the paths it may write,
  and what it has printed. The parsing done by \<^verbatim>\<open>csv.DictReader\<close> (with the
  \<^verbatim>\<open>utf-8-sig\<close> decoding) is library code; it enters \<open>load_rows\<close> and \<open>main\<close> as the
  parameter \<open>reader\<close>, from the content of a file to the rows or to an error.
\<close>

record world =
  files :: "string \<rightharpoonup> string"
  writable :: "string \<Rightarrow> bool"
  stdout :: "string list"

type_synonym csv_reader = "string \<Rightarrow> py_error + row list"

definition CSV_PATH :: "string \<Rightarrow> string" where
  \<open>CSV_PATH base = base @ ''/Alternative CPA Pathways Survey_December 31, 2025_09.45.csv''\<close>

definition OUTPUT_PATH :: "string \<Rightarrow> string" where
  \<open>OUTPUT_PATH base = base @ ''/visuals/cpa_survey_key_findings.svg''\<close>

section \<open>The loader\<close>

text \<open>\<^verbatim>\<open>r.get(key)\<close>: the cell, or \<^verbatim>\<open>None\<close> when the key is missing.\<close>

definition dict_get :: "row \<Rightarrow> string \<Rightarrow> cell" where
  "dict_get r key = (case r key of None \<Rightarrow> PyNone | Some v \<Rightarrow> v)"

text \<open>Truth value of a cell: \<^verbatim>\<open>None\<close> and the empty string are false.\<close>

fun truthy :: "cell \<Rightarrow> bool" where
  "truthy PyNone = False"
| "truthy (PyStr s) = (s \<noteq> [])"

text \<open>The condition of the list comprehension in \<^verbatim>\<open>load_rows\<close>.\<close>

definition clean_row :: "row \<Rightarrow> bool" where
  \<open>clean_row r =
     (truthy (dict_get r ''ResponseId'')
      \<and> dict_get r ''StartDate'' \<noteq> PyStr ''Start Date''
      \<and> dict_get r ''Finished'' = PyStr ''True'')\<close>

definition load_rows :: "csv_reader \<Rightarrow> world \<Rightarrow> string \<Rightarrow> py_error + row list" where
  "load_rows reader w path =
     (case files w path of
        None \<Rightarrow> Inl OSError
      | Some content \<Rightarrow>
          (case reader content of
             Inl e \<Rightarrow> Inl e
           | Inr rows \<Rightarrow> Inr [r \<leftarrow> rows. clean_row r]))"

text \<open>
  The filtering rule in the words of the specification: the identifier field is
  present and non-empty, the start-date field is not the text \<^verbatim>\<open>Start Date\<close>, and the
  finished field is the text \<^verbatim>\<open>True\<close>.
\<close>

definition spec_retained :: "row \<Rightarrow> bool" where
  \<open>spec_retained r =
     ((case r ''ResponseId'' of Some (PyStr s) \<Rightarrow> s \<noteq> [] | _ \<Rightarrow> False)
      \<and> r ''StartDate'' \<noteq> Some (PyStr ''Start Date'')
      \<and> r ''Finished'' = Some (PyStr ''True''))\<close>

text \<open>Four rows of an export: a completed response, a repeated header line, an
  unfinished response and a response without identifier.\<close>

definition row_ok :: row where
  \<open>row_ok = [''ResponseId'' \<mapsto> PyStr ''R_1'', ''StartDate'' \<mapsto> PyStr ''2025-12-01'',
             ''Finished'' \<mapsto> PyStr ''True'', ''Q29'' \<mapsto> PyStr ''Very likely'']\<close>

definition row_header :: row where
  \<open>row_header = [''ResponseId'' \<mapsto> PyStr ''Response ID'', ''StartDate'' \<mapsto> PyStr ''Start Date'',
                 ''Finished'' \<mapsto> PyStr ''True'', ''Q29'' \<mapsto> PyStr ''Likelihood'']\<close>

definition row_unfinished :: row where
  \<open>row_unfinished = [''ResponseId'' \<mapsto> PyStr ''R_2'', ''StartDate'' \<mapsto> PyStr ''2025-12-02'',
                     ''Finished'' \<mapsto> PyStr ''False'', ''Q29'' \<mapsto> PyStr ''Very unlikely'']\<close>

definition row_no_id :: row where
  \<open>row_no_id = [''ResponseId'' \<mapsto> PyStr '''', ''StartDate'' \<mapsto> PyStr ''2025-12-03'',
                ''Finished'' \<mapsto> PyStr ''True'', ''Q29'' \<mapsto> PyNone]\<close>

definition reader_C1 :: csv_reader where
  \<open>reader_C1 content =
     (if content = ''export'' then Inr [row_ok, row_header, row_unfinished, row_no_id, row_ok]
      else Inl CsvError)\<close>

definition world_C1 :: world where
  \<open>world_C1 = \<lparr>files = [''survey.csv'' \<mapsto> ''export''], writable = (\<lambda>p. True), stdout = []\<rparr>\<close>

section \<open>The summarizer\<close>

text \<open>
  \<^verbatim>\<open>str.strip()\<close> removes leading and trailing whitespace. Among the code points
  below 256 the whitespace characters of \<^verbatim>\<open>str.isspace\<close> are 9 to 13, 28 to 32, 133
  and 160.
\<close>

definition is_space :: "char \<Rightarrow> bool" where
  "is_space c =
     (let n = (of_char c :: nat)
      in (9 \<le> n \<and> n \<le> 13) \<or> (28 \<le> n \<and> n \<le> 32) \<or> n = 133 \<or> n = 160)"

definition strip :: "string \<Rightarrow> string" where
  "strip s = rev (dropWhile is_space (rev (dropWhile is_space s)))"

text \<open>\<^verbatim>\<open>r[column]\<close> raises \<^verbatim>\<open>KeyError\<close> when the row has no such key.\<close>

definition getitem :: "row \<Rightarrow> string \<Rightarrow> py_error + cell" where
  "getitem r column = (case r column of None \<Rightarrow> Inl KeyError | Some v \<Rightarrow> Inr v)"

text \<open>\<^verbatim>\<open>v.strip()\<close> on a cell: \<^verbatim>\<open>None\<close> has no such method.\<close>

fun cell_strip :: "cell \<Rightarrow> py_error + string" where
  "cell_strip PyNone = Inl AttributeError"
| "cell_strip (PyStr s) = Inr (strip s)"

text \<open>
  The generator \<^verbatim>\<open>r[column].strip() for r in rows if r[column].strip()\<close>: the rows
  are visited in order, the first row whose cell cannot be read or stripped raises,
  and the stripped value is produced when it is non-empty.
\<close>

fun answers :: "row list \<Rightarrow> string \<Rightarrow> py_error + string list" where
  "answers [] column = Inr []"
| "answers (r # rows) column =
     (case getitem r column of
        Inl e \<Rightarrow> Inl e
      | Inr v \<Rightarrow>
          (case cell_strip v of
             Inl e \<Rightarrow> Inl e
           | Inr s \<Rightarrow>
               (case answers rows column of
                  Inl e \<Rightarrow> Inl e
                | Inr ss \<Rightarrow> Inr (if s \<noteq> [] then s # ss else ss))))"

text \<open>
  \<^verbatim>\<open>collections.Counter\<close> is a dictionary, and a dictionary keeps its keys in the
  order of their first insertion: an association list, where counting an element
  increments its entry in place or appends a new entry with count 1.
\<close>

fun counter_add :: "(string \<times> nat) list \<Rightarrow> string \<Rightarrow> (string \<times> nat) list" where
  "counter_add [] k = [(k, 1)]"
| "counter_add ((k', c) # kvs) k =
     (if k' = k then (k', c + 1) # kvs else (k', c) # counter_add kvs k)"

definition Counter :: "string list \<Rightarrow> (string \<times> nat) list" where
  "Counter xs = foldl counter_add [] xs"

definition ORDER_items :: "(string \<times> nat) list" where
  \<open>ORDER_items =
    [(''Very unlikely'', 0),
     (''Somewhat unlikely'', 1),
     (''Neither likely nor unlikely'', 2),
     (''Somewhat likely'', 3),
     (''Very likely'', 4),
     (''Significantly decreased desire'', 0),
     (''Decreased desire'', 1),
     (''No change in desire'', 2),
     (''Increased desire'', 3),
     (''Significantly increased desire'', 4),
     (''Very Negative'', 0),
     (''Somewhat Negative'', 1),
     (''Neutral'', 2),
     (''Somewhat Positive'', 3),
     (''Very Positive'', 4),
     (''Not at all attractive'', 0),
     (''Somewhat unattractive'', 1),
     (''Neither attractive nor unattractive'', 2),
     (''Somewhat attractive'', 3),
     (''Very attractive'', 4)]\<close>

definition ORDER :: "string \<rightharpoonup> nat" where
  "ORDER = map_of ORDER_items"

text \<open>\<^verbatim>\<open>ORDER.get(key, default)\<close>.\<close>

definition ORDER_get :: "string \<Rightarrow> nat \<Rightarrow> nat" where
  "ORDER_get key dflt = (case ORDER key of None \<Rightarrow> dflt | Some v \<Rightarrow> v)"

text \<open>The sort key \<^verbatim>\<open>lambda kv: ORDER.get(kv[0], 999)\<close>.\<close>

definition sort_rank :: "string \<times> nat \<Rightarrow> nat" where
  "sort_rank kv = ORDER_get (fst kv) 999"

text \<open>
  \<^verbatim>\<open>sorted\<close> is a stable sort; \<^const>\<open>sort_key\<close> is the stable insertion sort, and a
  stable sort has one result only.
\<close>

definition summarize :: "row list \<Rightarrow> string \<Rightarrow> py_error + (string \<times> nat) list \<times> nat" where
  "summarize rows column =
     (case answers rows column of
        Inl e \<Rightarrow> Inl e
      | Inr vals \<Rightarrow>
          (let counter = Counter vals;
               ordered = sort_key sort_rank counter;
               total = sum_list (map snd counter)
           in Inr (ordered, total)))"

subsection \<open>The words of the specification about the summarizer\<close>

text \<open>
  The trimmed value of a row in a column (empty when the row has no string there), the
  rows that count as an answer, and the answers of a question in row order.
\<close>

definition trimmed :: "row \<Rightarrow> string \<Rightarrow> string" where
  "trimmed r column = (case r column of Some (PyStr s) \<Rightarrow> strip s | _ \<Rightarrow> [])"

definition has_answer :: "row \<Rightarrow> string \<Rightarrow> bool" where
  "has_answer r column = (trimmed r column \<noteq> [])"

definition responses :: "row list \<Rightarrow> string \<Rightarrow> string list" where
  "responses rows column = map (\<lambda>r. trimmed r column) [r \<leftarrow> rows. has_answer r column]"

fun first_index :: "'a list \<Rightarrow> 'a \<Rightarrow> nat" where
  "first_index [] a = 0"
| "first_index (x # xs) a = (if x = a then 0 else Suc (first_index xs a))"

definition appears_before :: "'a list \<Rightarrow> 'a \<Rightarrow> 'a \<Rightarrow> bool" where
  "appears_before xs a b = (a \<in> set xs \<and> b \<in> set xs \<and> first_index xs a < first_index xs b)"

definition has_string :: "row \<Rightarrow> string \<Rightarrow> bool" where
  "has_string r column = (case r column of Some (PyStr s) \<Rightarrow> True | _ \<Rightarrow> False)"

fun uniq :: "'a list \<Rightarrow> 'a list" where
  "uniq [] = []"
| "uniq (x # xs) = x # filter (\<lambda>y. y \<noteq> x) (uniq xs)"

definition answer_row :: "string \<Rightarrow> row" where
  \<open>answer_row s = [''ResponseId'' \<mapsto> PyStr ''R_1'', ''StartDate'' \<mapsto> PyStr ''2025-12-01'',
             ''Finished'' \<mapsto> PyStr ''True'', ''Q29'' \<mapsto> PyStr s]\<close>

definition rows_mixed :: "row list" where
  \<open>rows_mixed = map answer_row
     [''zeta'', '' Very likely '', ''  '', ''alpha'', ''Very unlikely'', ''zeta'', ''Very likely'']\<close>

section \<open>Numbers of the renderer\<close>

text \<open>
  A Python \<^verbatim>\<open>float\<close> is a binary64 number. A finite float is modelled by its exact
  value, a rational number, and an operation on floats returns the exact result
  rounded to the nearest float, ties to even (\<open>fl\<close>): 53 significant bits, and a
  least exponent of \<open>-1074\<close> for the subnormal numbers. The model has no infinity:
  it is the float arithmetic of Python for results below \<open>2 ^ 1024\<close> in magnitude,
  which covers every count that is at most its total.
\<close>

definition round_half_even :: "rat \<Rightarrow> int" where
  "round_half_even q =
     (let f = \<lfloor>q\<rfloor>; r = q - of_int f
      in if r < 1 / 2 then f else if 1 / 2 < r then f + 1 else if even f then f else f + 1)"

text \<open>The exponent \<open>e\<close> of a non-zero number: \<open>2 ^ e \<le> \<bar>q\<bar> < 2 ^ (e + 1)\<close>.\<close>

definition float_exponent :: "rat \<Rightarrow> int" where
  "float_exponent q =
     (let (n, d) = quotient_of \<bar>q\<bar>; k = bitlen n - bitlen d
      in if \<bar>q\<bar> < 2 powi k then k - 1 else k)"

definition fl :: "rat \<Rightarrow> rat" where
  "fl q =
     (if q = 0 then 0
      else let e = max (float_exponent q - 52) (- 1074);
               m = round_half_even (q / 2 powi e)
           in of_int m * 2 powi e)"

text \<open>
  \<^verbatim>\<open>a / b\<close> on two integers: the correctly rounded quotient; a zero divisor raises,
  and so does a quotient beyond the floats, which end below \<open>2 ^ 1024\<close>.
\<close>

definition truediv :: "nat \<Rightarrow> nat \<Rightarrow> py_error + rat" where
  "truediv a b =
     (if b = 0 then Inl ZeroDivisionError
      else let q = fl (of_nat a / of_nat b)
           in if q \<noteq> 0 \<and> 1024 \<le> float_exponent q then Inl OverflowError else Inr q)"

text \<open>
  The decimal digits of a non-negative integer, \<^verbatim>\<open>str(i)\<close> of an integer, and the
  format \<^verbatim>\<open>{v:.1f}\<close>: one decimal, the exact value rounded half to even.
\<close>

function str_digits :: "int \<Rightarrow> string" where
  "str_digits n =
     (if n < 10 then [char_of (48 + n)]
      else str_digits (n div 10) @ [char_of (48 + n mod 10)])"
  by pat_completeness auto
termination
  by (relation "measure nat") auto

declare str_digits.simps [simp del]

definition str_int :: "int \<Rightarrow> string" where
  "str_int i = (if i < 0 then CHR ''-'' # str_digits (- i) else str_digits i)"

definition fmt_1f :: "rat \<Rightarrow> string" where
  "fmt_1f v =
     (let t = round_half_even (\<bar>v\<bar> * 10)
      in (if v < 0 then ''-'' else []) @ str_digits (t div 10) @ ''.'' @ str_digits (t mod 10))"

section \<open>The renderer\<close>

definition COLOR_SCALE_items :: "(nat \<times> string) list" where
  \<open>COLOR_SCALE_items =
    [(0, ''#8b1e3f''),
     (1, ''#d8576b''),
     (2, ''#b0b7c3''),
     (3, ''#58a4b0''),
     (4, ''#1d7a8c'')]\<close>

definition COLOR_SCALE :: "nat \<rightharpoonup> string" where
  "COLOR_SCALE = map_of COLOR_SCALE_items"

definition COLOR_SCALE_get :: "nat \<Rightarrow> string \<Rightarrow> string" where
  "COLOR_SCALE_get key dflt = (case COLOR_SCALE key of None \<Rightarrow> dflt | Some v \<Rightarrow> v)"

text \<open>The layout constants at the head of \<^verbatim>\<open>make_svg\<close>.\<close>

definition width :: int where "width = 1400"
definition height :: int where "height = 980"
definition left_margin :: int where "left_margin = 90"
definition chart_left :: rat where "chart_left = 520"
definition chart_width :: rat where "chart_width = 780"
definition top_margin :: int where "top_margin = 170"
definition row_gap :: int where "row_gap = 140"
definition bar_height :: int where "bar_height = 46"

text \<open>
  The two guarded expressions of the segment loop.
  \<^verbatim>\<open>pct = (count / total) * 100 if total else 0\<close> and
  \<^verbatim>\<open>seg_w = max(1.0, chart_width * (count / total)) if total else 0\<close>; the
  second argument of \<^verbatim>\<open>max\<close> is the proportional width before the floor of one unit.
\<close>

definition segment_pct :: "nat \<Rightarrow> nat \<Rightarrow> py_error + rat" where
  "segment_pct count tot =
     (if tot \<noteq> 0
      then (case truediv count tot of Inl e \<Rightarrow> Inl e | Inr q \<Rightarrow> Inr (fl (q * 100)))
      else Inr 0)"

definition proportional_width :: "nat \<Rightarrow> nat \<Rightarrow> py_error + rat" where
  "proportional_width count tot =
     (case truediv count tot of Inl e \<Rightarrow> Inl e | Inr q \<Rightarrow> Inr (fl (chart_width * q)))"

definition segment_width :: "nat \<Rightarrow> nat \<Rightarrow> py_error + rat" where
  "segment_width count tot =
     (if tot \<noteq> 0
      then (case proportional_width count tot of Inl e \<Rightarrow> Inl e | Inr w \<Rightarrow> Inr (max 1 w))
      else Inr 0)"

text \<open>The f-strings of the segment loop: the bar segment, the two labels inside a
  wide segment, and the percentage outside a narrow one.\<close>

definition segment_rect :: "rat \<Rightarrow> int \<Rightarrow> rat \<Rightarrow> string \<Rightarrow> string" where
  \<open>segment_rect x y seg_w color =
     ''<rect x="'' @ fmt_1f x @ ''" y="'' @ str_int y @ ''" width="'' @ fmt_1f seg_w
     @ ''" height="'' @ str_int bar_height @ ''" fill="'' @ color @ ''"/>''\<close>

definition inside_label :: "rat \<Rightarrow> int \<Rightarrow> string \<Rightarrow> string" where
  \<open>inside_label cx ty txt =
     ''<text x="'' @ fmt_1f cx @ ''" y="'' @ str_int ty
     @ ''" text-anchor="middle" font-size="13" font-family="Segoe UI, Arial, sans-serif" fill="#ffffff" font-weight="600">''
     @ txt @ ''</text>''\<close>

definition inside_pct :: "rat \<Rightarrow> int \<Rightarrow> rat \<Rightarrow> string" where
  \<open>inside_pct cx ty pct =
     ''<text x="'' @ fmt_1f cx @ ''" y="'' @ str_int ty
     @ ''" text-anchor="middle" font-size="15" font-family="Segoe UI, Arial, sans-serif" fill="#ffffff" font-weight="700">''
     @ fmt_1f pct @ ''%</text>''\<close>

definition outside_pct :: "rat \<Rightarrow> int \<Rightarrow> rat \<Rightarrow> string" where
  \<open>outside_pct lx ty pct =
     ''<text x="'' @ fmt_1f lx @ ''" y="'' @ str_int ty
     @ ''" font-size="13" font-family="Segoe UI, Arial, sans-serif" fill="#334e68">''
     @ fmt_1f pct @ ''%</text>''\<close>

text \<open>
  The body of the loop \<^verbatim>\<open>for text, count in entries\<close>: from the cursor \<open>x\<close>, the
  parts it appends and the cursor after \<^verbatim>\<open>x += seg_w\<close>.
\<close>

definition render_segment ::
  "rat \<Rightarrow> int \<Rightarrow> nat \<Rightarrow> string \<times> nat \<Rightarrow> py_error + string list \<times> rat" where
  \<open>render_segment x y tot entry =
     (case entry of (txt, count) \<Rightarrow>
        (case segment_pct count tot of
           Inl e \<Rightarrow> Inl e
         | Inr pct \<Rightarrow>
             (case segment_width count tot of
                Inl e \<Rightarrow> Inl e
              | Inr seg_w \<Rightarrow>
                  (let tone = ORDER_get txt 2;
                       color = COLOR_SCALE_get tone ''#6b778d'';
                       rect = segment_rect x y seg_w color;
                       labels =
                         (if 115 < seg_w
                          then [inside_label (fl (x + fl (seg_w / 2))) (y + 21) txt,
                                inside_pct (fl (x + fl (seg_w / 2))) (y + 39) pct]
                          else [outside_pct (fl (fl (x + seg_w) + 6)) (y + 28) pct])
                   in Inr (rect # labels, fl (x + seg_w))))))\<close>

fun render_entries ::
  "rat \<Rightarrow> int \<Rightarrow> nat \<Rightarrow> (string \<times> nat) list \<Rightarrow> py_error + string list" where
  "render_entries x y tot [] = Inr []"
| "render_entries x y tot (entry # entries) =
     (case render_segment x y tot entry of
        Inl e \<Rightarrow> Inl e
      | Inr (parts, x') \<Rightarrow>
          (case render_entries x' y tot entries of
             Inl e \<Rightarrow> Inl e
           | Inr rest \<Rightarrow> Inr (parts @ rest)))"

text \<open>One result of \<^verbatim>\<open>results\<close>: the label of a question, its entries and its total.\<close>

type_synonym result = "string \<times> (string \<times> nat) list \<times> nat"

definition card_rect :: "int \<Rightarrow> string" where
  \<open>card_rect y =
     ''<rect x="70" y="'' @ str_int (y - 44)
     @ ''" width="1260" height="92" rx="16" fill="#ffffff" filter="url(#cardShadow)"/>''\<close>

definition question_label :: "int \<Rightarrow> string \<Rightarrow> string" where
  \<open>question_label y label =
     ''<text x="'' @ str_int left_margin @ ''" y="'' @ str_int (y - 8)
     @ ''" font-size="22" font-family="Segoe UI, Arial, sans-serif" font-weight="600" fill="#102a43">''
     @ label @ ''</text>''\<close>

text \<open>The body of the loop \<^verbatim>\<open>for i, (label, entries, total) in enumerate(results)\<close>.\<close>

definition render_row :: "nat \<Rightarrow> result \<Rightarrow> py_error + string list" where
  "render_row i res =
     (case res of (label, entries, tot) \<Rightarrow>
        (let y = top_margin + int i * row_gap
         in (case render_entries chart_left y tot entries of
               Inl e \<Rightarrow> Inl e
             | Inr segs \<Rightarrow> Inr (card_rect y # question_label y label # segs))))"

fun render_rows :: "nat \<Rightarrow> result list \<Rightarrow> py_error + string list" where
  "render_rows i [] = Inr []"
| "render_rows i (res # results) =
     (case render_row i res of
        Inl e \<Rightarrow> Inl e
      | Inr parts \<Rightarrow>
          (case render_rows (Suc i) results of
             Inl e \<Rightarrow> Inl e
           | Inr rest \<Rightarrow> Inr (parts @ rest)))"

definition header_parts :: "nat \<Rightarrow> string list" where
  \<open>header_parts n_finished =
    [''<svg xmlns="http://www.w3.org/2000/svg" width="'' @ str_int width @ ''" height="''
       @ str_int height @ ''" viewBox="0 0 '' @ str_int width @ '' '' @ str_int height @ ''">'',
     ''<defs>'',
     ''  <linearGradient id="bg" x1="0" y1="0" x2="1" y2="1">'',
     ''    <stop offset="0%" stop-color="#f7f9fc"/>'',
     ''    <stop offset="100%" stop-color="#edf1f8"/>'',
     ''  </linearGradient>'',
     ''  <filter id="cardShadow" x="-10%" y="-10%" width="130%" height="130%">'',
     ''    <feDropShadow dx="0" dy="4" stdDeviation="6" flood-color="#8fa2c0" flood-opacity="0.2"/>'',
     ''  </filter>'',
     ''</defs>'',
     ''<rect x="0" y="0" width="1400" height="980" fill="url(#bg)"/>'',
     ''<text x="90" y="72" font-size="44" font-family="Segoe UI, Arial, sans-serif" font-weight="700" fill="#1d2d44">CPA Pathway Survey: Key Findings</text>'',
     ''<text x="90" y="110" font-size="22" font-family="Segoe UI, Arial, sans-serif" fill="#334e68">Distribution of responses across five high-impact decision questions</text>'',
     ''<text x="90" y="140" font-size="18" font-family="Segoe UI, Arial, sans-serif" fill="#486581">n = ''
       @ str_int (int n_finished) @ '' completed responses</text>'']\<close>

definition footer_parts :: "string list" where
  \<open>footer_parts =
    [''<text x="90" y="940" font-size="14" font-family="Segoe UI, Arial, sans-serif" fill="#627d98">Source: Alternative CPA Pathways Survey (cleaned to completed responses only).</text>'',
     ''</svg>'']\<close>

text \<open>\<^verbatim>\<open>"\n".join(parts)\<close>.\<close>

fun join_lines :: "string list \<Rightarrow> string" where
  "join_lines [] = []"
| "join_lines [p] = p"
| "join_lines (p # q # ps) = p @ CHR 0x0A # join_lines (q # ps)"

definition make_svg :: "result list \<Rightarrow> nat \<Rightarrow> py_error + string" where
  "make_svg results n_finished =
     (case render_rows 0 results of
        Inl e \<Rightarrow> Inl e
      | Inr rows \<Rightarrow> Inr (join_lines (header_parts n_finished @ rows @ footer_parts)))"

section \<open>The entry point\<close>

definition QUESTIONS :: "(string \<times> string) list" where
  \<open>QUESTIONS =
    [(''Q29'', ''Likelihood of pursuing CPA license''),
     (''Q51'', ''Alternative pathway'' @ [CHR 0x27] @ ''s impact on CPA desire''),
     (''Q52'', ''Alternative pathway'' @ [CHR 0x27] @ ''s impact on graduate degree desire''),
     (''Q6'', ''Overall perception of CPA pathway change''),
     (''Q25'', ''Attractiveness of shorter graduate certificate'')]\<close>

text \<open>The loop of \<^verbatim>\<open>main\<close> over the questions; the first failing summary raises.\<close>

fun summarize_all :: "row list \<Rightarrow> (string \<times> string) list \<Rightarrow> py_error + result list" where
  "summarize_all rows [] = Inr []"
| "summarize_all rows ((col, label) # questions) =
     (case summarize rows col of
        Inl e \<Rightarrow> Inl e
      | Inr (entries, tot) \<Rightarrow>
          (case summarize_all rows questions of
             Inl e \<Rightarrow> Inl e
           | Inr results \<Rightarrow> Inr ((label, entries, tot) # results)))"

text \<open>\<^verbatim>\<open>path.write_text(s)\<close> replaces the content of the file, or fails.\<close>

definition write_text :: "world \<Rightarrow> string \<Rightarrow> string \<Rightarrow> py_error + world" where
  "write_text w path s =
     (if writable w path then Inr (w\<lparr>files := (files w)(path \<mapsto> s)\<rparr>) else Inl OSError)"

definition print_line :: "world \<Rightarrow> string \<Rightarrow> world" where
  "print_line w s = w\<lparr>stdout := stdout w @ [s]\<rparr>"

text \<open>
  \<^verbatim>\<open>main\<close>, from the world before the run to the world after it. \<open>base\<close> is the
  directory \<^verbatim>\<open>ROOT\<close> that the script computes from its own location.
\<close>

definition main :: "csv_reader \<Rightarrow> string \<Rightarrow> world \<Rightarrow> py_error + world" where
  \<open>main reader base w =
     (case load_rows reader w (CSV_PATH base) of
        Inl e \<Rightarrow> Inl e
      | Inr rows \<Rightarrow>
          (case summarize_all rows QUESTIONS of
             Inl e \<Rightarrow> Inl e
           | Inr results \<Rightarrow>
               (case make_svg results (length rows) of
                  Inl e \<Rightarrow> Inl e
                | Inr svg \<Rightarrow>
                    (case write_text w (OUTPUT_PATH base) svg of
                       Inl e \<Rightarrow> Inl e
                     | Inr w' \<Rightarrow> Inr (print_line w' (''Wrote '' @ OUTPUT_PATH base))))))\<close>

section \<open>Inputs of the examples\<close>

text \<open>Two blank answers; and one \<^verbatim>\<open>Very unlikely\<close> among eight \<^verbatim>\<open>Very likely\<close>.\<close>

definition rows_blank :: "row list" where
  \<open>rows_blank = map answer_row ['' '', []]\<close>

definition rows_1_8 :: "row list" where
  \<open>rows_1_8 = map answer_row
     [''Very likely'', ''Very likely'', ''Very unlikely'', ''Very likely'', ''Very likely'',
      ''Very likely'', ''Very likely'', ''Very likely'', ''Very likely'']\<close>

text \<open>
  The sum, over the entries of a row, of the proportional widths that the renderer
  computes before the floor of one unit; the floats are added exactly.
\<close>

fun width_sum :: "(string \<times> nat) list \<Rightarrow> nat \<Rightarrow> py_error + rat" where
  "width_sum [] tot = Inr 0"
| "width_sum (entry # entries) tot =
     (case proportional_width (snd entry) tot of
        Inl e \<Rightarrow> Inl e
      | Inr w \<Rightarrow>
          (case width_sum entries tot of
             Inl e \<Rightarrow> Inl e
           | Inr s \<Rightarrow> Inr (w + s)))"

text \<open>
  A completed response with its five answers; an export of two responses and a
  repeated header line; and two worlds that hold the same export, the second one with
  the output of an earlier run and a line already printed.
\<close>

definition survey_row :: "string \<Rightarrow> string \<Rightarrow> string \<Rightarrow> string \<Rightarrow> string \<Rightarrow> row" where
  \<open>survey_row q29 q51 q52 q6 q25 =
     [''ResponseId'' \<mapsto> PyStr ''R_7'', ''StartDate'' \<mapsto> PyStr ''2025-12-05'',
      ''Finished'' \<mapsto> PyStr ''True'', ''Q29'' \<mapsto> PyStr q29, ''Q51'' \<mapsto> PyStr q51,
      ''Q52'' \<mapsto> PyStr q52, ''Q6'' \<mapsto> PyStr q6, ''Q25'' \<mapsto> PyStr q25]\<close>

definition export_rows :: "row list" where
  \<open>export_rows =
     [survey_row ''Very likely'' ''Increased desire'' ''No change in desire'' ''Somewhat Positive'' [],
      row_header,
      survey_row ''Somewhat likely'' ''Increased desire'' ''Decreased desire'' ''unsure'' '' '']\<close>

definition reader_main :: csv_reader where
  \<open>reader_main content = (if content = ''export'' then Inr export_rows else Inl CsvError)\<close>

definition world_A :: world where
  \<open>world_A = \<lparr>files = [CSV_PATH ''/repo'' \<mapsto> ''export''], writable = (\<lambda>p. True), stdout = []\<rparr>\<close>

definition world_B :: world where
  \<open>world_B =
     \<lparr>files = [CSV_PATH ''/repo'' \<mapsto> ''export'', OUTPUT_PATH ''/repo'' \<mapsto> ''<svg/>''],
      writable = (\<lambda>p. True), stdout = [''Wrote it before'']\<rparr>\<close>

section \<open>Properties of the loader\<close>

lemma clean_row_iff_spec: "clean_row r = spec_retained r"
  by (auto simp: clean_row_def spec_retained_def dict_get_def
      split: option.splits cell.splits)

text \<open>
  C1. When the file can be read and parsed, the loader returns exactly the rows that
  satisfy the three conditions of the specification, in their order and with their
  multiplicity; a row failing one of them is not in the result.
\<close>

theorem load_rows_retains_iff:
  assumes "files w path = Some content" and "reader content = Inr rows"
  shows "load_rows reader w path = Inr (filter spec_retained rows)
         \<and> (\<forall>r. r \<in> set (filter spec_retained rows) \<longleftrightarrow> r \<in> set rows \<and> spec_retained r)"
proof -
  have "filter clean_row rows = filter spec_retained rows"
    by (rule filter_cong) (simp_all add: clean_row_iff_spec)
  with assms show ?thesis
    by (simp add: load_rows_def)
qed

theorem load_rows_retains_iff_witness:
  \<open>files world_C1 ''survey.csv'' = Some ''export''
   \<and> reader_C1 ''export'' = Inr [row_ok, row_header, row_unfinished, row_no_id, row_ok]
   \<and> load_rows reader_C1 world_C1 ''survey.csv'' = Inr [row_ok, row_ok]\<close>
proof -
  have f: \<open>files world_C1 ''survey.csv'' = Some ''export''\<close>
    by (simp add: world_C1_def)
  have r: \<open>reader_C1 ''export'' = Inr [row_ok, row_header, row_unfinished, row_no_id, row_ok]\<close>
    by (simp add: reader_C1_def)
  have k: "spec_retained row_ok" "\<not> spec_retained row_header"
    "\<not> spec_retained row_unfinished" "\<not> spec_retained row_no_id"
    by (simp_all add: spec_retained_def row_ok_def row_header_def row_unfinished_def
        row_no_id_def)
  from load_rows_retains_iff [where w = world_C1 and reader = reader_C1, OF f r] k f r
  show ?thesis
    by simp
qed

section \<open>Properties of the summarizer\<close>

lemma answers_Inr_iff:
  "(\<exists>vals. answers rows column = Inr vals) \<longleftrightarrow> (\<forall>r \<in> set rows. has_string r column)"
  by (induction rows)
    (auto simp: getitem_def has_string_def split: option.splits cell.splits sum.splits)

lemma responses_Nil: "responses [] column = []"
  by (simp add: responses_def)

lemma responses_Cons:
  "responses (r # rows) column =
   (if trimmed r column \<noteq> [] then trimmed r column # responses rows column
    else responses rows column)"
  by (simp add: responses_def has_answer_def)

lemma cell_strip_trimmed:
  "getitem r column = Inr v \<Longrightarrow> cell_strip v = Inr s \<Longrightarrow> trimmed r column = s"
  by (cases v) (auto simp: getitem_def trimmed_def split: option.splits)

lemma answers_responses:
  "answers rows column = Inr vals \<Longrightarrow> vals = responses rows column"
proof (induction rows arbitrary: vals)
  case Nil
  then show ?case by (simp add: responses_Nil)
next
  case (Cons r rows)
  from Cons.prems obtain v s ss where
    v: "getitem r column = Inr v" and s: "cell_strip v = Inr s"
    and ss: "answers rows column = Inr ss"
    and vals: "vals = (if s \<noteq> [] then s # ss else ss)"
    by (auto split: sum.splits)
  from v s have "trimmed r column = s" by (rule cell_strip_trimmed)
  moreover from ss have "ss = responses rows column" by (rule Cons.IH)
  ultimately show ?case
    using vals by (simp add: responses_Cons)
qed

lemma answers_error:
  "answers rows column = Inl e \<Longrightarrow> e = KeyError \<or> e = AttributeError"
  by (induction rows)
    (auto simp: getitem_def split: option.splits sum.splits elim: cell_strip.elims)

lemma sum_counter_add: "sum_list (map snd (counter_add kvs k)) = Suc (sum_list (map snd kvs))"
  by (induction kvs) auto

lemma sum_foldl_counter_add:
  "sum_list (map snd (foldl counter_add acc xs)) = sum_list (map snd acc) + length xs"
  by (induction xs arbitrary: acc) (auto simp: sum_counter_add)

lemma sum_Counter: "sum_list (map snd (Counter xs)) = length xs"
  by (simp add: Counter_def sum_foldl_counter_add)

lemma keys_counter_add:
  "map fst (counter_add kvs k) = (if k \<in> set (map fst kvs) then map fst kvs else map fst kvs @ [k])"
  by (induction kvs) (auto simp: rev_image_eqI)

lemma keys_foldl_counter_add:
  "map fst (foldl counter_add acc xs) =
   map fst acc @ filter (\<lambda>y. y \<notin> set (map fst acc)) (uniq xs)"
proof (induction xs arbitrary: acc)
  case Nil
  then show ?case by simp
next
  case (Cons x xs)
  show ?case
  proof (cases "x \<in> set (map fst acc)")
    case True
    have "filter (\<lambda>y. y \<notin> set (map fst acc)) (filter (\<lambda>y. y \<noteq> x) (uniq xs))
        = filter (\<lambda>y. y \<notin> set (map fst acc)) (uniq xs)"
      using True by (auto intro: filter_cong)
    with True Cons.IH [of "counter_add acc x"] show ?thesis
      by (simp add: keys_counter_add)
  next
    case False
    have "filter (\<lambda>y. y \<notin> set (map fst acc @ [x])) (uniq xs)
        = filter (\<lambda>y. y \<notin> set (map fst acc)) (filter (\<lambda>y. y \<noteq> x) (uniq xs))"
      by (auto intro: filter_cong)
    with False Cons.IH [of "counter_add acc x"] show ?thesis
      by (simp add: keys_counter_add)
  qed
qed

lemma keys_Counter: "map fst (Counter xs) = uniq xs"
  by (simp add: Counter_def keys_foldl_counter_add)

lemma set_uniq: "set (uniq xs) = set xs"
  by (induction xs) auto

lemma distinct_uniq: "distinct (uniq xs)"
  by (induction xs) (auto simp: set_uniq)

lemma counts_counter_add:
  "\<forall>kv \<in> set kvs. 1 \<le> snd kv \<Longrightarrow> \<forall>kv \<in> set (counter_add kvs k). 1 \<le> snd kv"
  by (induction kvs) (force split: if_splits)+

lemma counts_foldl_counter_add:
  "\<forall>kv \<in> set acc. 1 \<le> snd kv \<Longrightarrow> \<forall>kv \<in> set (foldl counter_add acc xs). 1 \<le> snd kv"
proof (induction xs arbitrary: acc)
  case Nil
  then show ?case by simp
next
  case (Cons x xs)
  from Cons.prems have "\<forall>kv \<in> set (counter_add acc x). 1 \<le> snd kv"
    by (rule counts_counter_add)
  then show ?case
    using Cons.IH [of "counter_add acc x"] by simp
qed

lemma counts_Counter: "kv \<in> set (Counter xs) \<Longrightarrow> 1 \<le> snd kv"
  using counts_foldl_counter_add [of "[]" xs] by (simp add: Counter_def)

lemma sum_insort_key:
  fixes f :: "'a \<Rightarrow> nat"
  shows "sum_list (map f (insort_key g x xs)) = f x + sum_list (map f xs)"
  by (induction xs) auto

lemma sum_sort_key:
  fixes f :: "'a \<Rightarrow> nat"
  shows "sum_list (map f (sort_key g xs)) = sum_list (map f xs)"
  by (induction xs) (auto simp: sum_insort_key)

lemma map_insort_key:
  "map f (insort_key (\<lambda>x. g (f x)) x xs) = insort_key g (f x) (map f xs)"
  by (induction xs) auto

lemma map_sort_key: "map f (sort_key (\<lambda>x. g (f x)) xs) = sort_key g (map f xs)"
  by (induction xs) (auto simp: map_insort_key)

lemma first_index_filter:
  "P a \<Longrightarrow> P b \<Longrightarrow>
   first_index (filter P xs) a < first_index (filter P xs) b \<longleftrightarrow> first_index xs a < first_index xs b"
  by (induction xs) auto

lemma first_index_uniq:
  "first_index (uniq xs) a < first_index (uniq xs) b \<longleftrightarrow> first_index xs a < first_index xs b"
  by (induction xs) (auto simp: first_index_filter)

lemma first_index_sorted:
  "sorted (map f xs) \<Longrightarrow> a \<in> set xs \<Longrightarrow> b \<in> set xs \<Longrightarrow> f a < f b \<Longrightarrow>
   first_index xs a < first_index xs b"
  by (induction xs) fastforce+

lemma ORDER_le_4: "ORDER k = Some v \<Longrightarrow> v \<le> 4"
  by (auto simp: ORDER_def ORDER_items_def split: if_splits)

lemma summarize_Inr:
  "summarize rows column = Inr (ordered, tot) \<Longrightarrow>
   ordered = sort_key sort_rank (Counter (responses rows column))
   \<and> tot = length (responses rows column)"
  by (auto simp: summarize_def Let_def sum_Counter dest: answers_responses split: sum.splits)

lemma keys_summarize:
  assumes "summarize rows column = Inr (ordered, tot)"
  shows "map fst ordered = sort_key (\<lambda>k. ORDER_get k 999) (uniq (responses rows column))"
proof -
  have r: "sort_rank = (\<lambda>kv. ORDER_get (fst kv) 999)"
    by (simp add: fun_eq_iff sort_rank_def)
  from summarize_Inr [OF assms]
  have "ordered = sort_key (\<lambda>kv. ORDER_get (fst kv) 999) (Counter (responses rows column))"
    by (simp add: r)
  then have "map fst ordered
      = sort_key (\<lambda>k. ORDER_get k 999) (map fst (Counter (responses rows column)))"
    using map_sort_key [of fst "\<lambda>k. ORDER_get k 999"] by simp
  then show ?thesis
    by (simp only: keys_Counter)
qed

lemma sorted_keys_summarize:
  assumes "summarize rows column = Inr (ordered, tot)"
  shows "sorted (map (\<lambda>k. ORDER_get k 999) (map fst ordered))"
    and "set (map fst ordered) = set (responses rows column)"
    and "distinct (map fst ordered)"
  using keys_summarize [OF assms] by (simp_all add: set_uniq distinct_uniq)

lemma summarize_sum:
  assumes "summarize rows column = Inr (ordered, tot)"
  shows "tot = sum_list (map snd ordered)"
  using summarize_Inr [OF assms] by (simp add: sum_sort_key sum_Counter)

lemma summarize_counts:
  assumes "summarize rows column = Inr (ordered, tot)"
  shows "\<forall>kv \<in> set ordered. 1 \<le> snd kv" and "tot = 0 \<longleftrightarrow> ordered = []"
proof -
  from summarize_Inr [OF assms]
  have o: "ordered = sort_key sort_rank (Counter (responses rows column))"
    and t: "tot = length (responses rows column)"
    by simp_all
  show "\<forall>kv \<in> set ordered. 1 \<le> snd kv"
    using o by (auto dest: counts_Counter)
  have "length ordered = length (uniq (responses rows column))"
    using keys_summarize [OF assms] by (metis length_map length_sort)
  then show "tot = 0 \<longleftrightarrow> ordered = []"
    using t by (cases "responses rows column") auto
qed

lemma count_le_total:
  assumes "summarize rows column = Inr (entries, tot)"
  shows "\<forall>kv \<in> set entries. snd kv \<le> tot"
proof
  fix kv assume "kv \<in> set entries"
  then have "snd kv \<in> set (map snd entries)" by simp
  then have "snd kv \<le> sum_list (map snd entries)" by (simp add: member_le_sum_list)
  with summarize_sum [OF assms] show "snd kv \<le> tot" by simp
qed

text \<open>The examples, evaluated.\<close>

lemma summarize_rows_mixed:
  \<open>summarize rows_mixed ''Q29'' =
     Inr ([(''Very unlikely'', 1), (''Very likely'', 2), (''zeta'', 2), (''alpha'', 1)], 6)\<close>
  by code_simp

lemma responses_rows_mixed:
  \<open>responses rows_mixed ''Q29'' =
     [''zeta'', ''Very likely'', ''alpha'', ''Very unlikely'', ''zeta'', ''Very likely'']\<close>
  by code_simp

lemma summarize_rows_blank: \<open>summarize rows_blank ''Q29'' = Inr ([], 0)\<close>
  by code_simp

lemma summarize_rows_1_8:
  \<open>summarize rows_1_8 ''Q29'' = Inr ([(''Very unlikely'', 1), (''Very likely'', 8)], 9)\<close>
  by code_simp

text \<open>
  C2 as stated fails: a row that has no cell for the column makes \<open>summarize\<close>
  raise. The row below answers \<^verbatim>\<open>Q29\<close> and has no column \<^verbatim>\<open>Q51\<close>.
\<close>

theorem summarize_missing_column_counterexample:
  \<open>summarize [answer_row ''Very likely''] ''Q51'' = Inl KeyError\<close>
  by code_simp

text \<open>
  C2, amended. \<open>summarize\<close> returns a summary and a total exactly when every row has
  a string in the column (an empty row sequence included). Otherwise it raises: the
  first row without a string there ends the call, with \<^verbatim>\<open>KeyError\<close> when the column
  is missing and \<^verbatim>\<open>AttributeError\<close> when the cell is \<^verbatim>\<open>None\<close>. In particular a column
  missing from all of at least one row raises \<^verbatim>\<open>KeyError\<close>.
\<close>

theorem summarize_returns_iff:
  "((\<exists>ordered tot. summarize rows column = Inr (ordered, tot))
      \<longleftrightarrow> list_all (\<lambda>r. has_string r column) rows)
   \<and> (\<forall>e. summarize rows column = Inl e \<longrightarrow> e = KeyError \<or> e = AttributeError)
   \<and> (rows \<noteq> [] \<and> list_all (\<lambda>r. r column = None) rows
        \<longrightarrow> summarize rows column = Inl KeyError)"
proof -
  have "(\<exists>ordered tot. summarize rows column = Inr (ordered, tot))
     \<longleftrightarrow> (\<exists>vals. answers rows column = Inr vals)"
    by (auto simp: summarize_def Let_def split: sum.splits)
  then have 1: "(\<exists>ordered tot. summarize rows column = Inr (ordered, tot))
      \<longleftrightarrow> list_all (\<lambda>r. has_string r column) rows"
    by (simp add: answers_Inr_iff list_all_iff)
  have 2: "e = KeyError \<or> e = AttributeError" if "summarize rows column = Inl e" for e
  proof -
    from that have "answers rows column = Inl e"
      by (auto simp: summarize_def Let_def split: sum.splits)
    then show ?thesis by (rule answers_error)
  qed
  have 3: "summarize rows column = Inl KeyError"
    if "rows \<noteq> []" "list_all (\<lambda>r. r column = None) rows"
  proof -
    from that obtain r rs where "rows = r # rs" "r column = None"
      by (cases rows) auto
    then show ?thesis
      by (simp add: summarize_def getitem_def)
  qed
  from 1 2 3 show ?thesis by blast
qed

theorem summarize_returns_iff_witness:
  \<open>list_all (\<lambda>r. has_string r ''Q29'') rows_mixed
   \<and> (\<exists>ordered tot. summarize rows_mixed ''Q29'' = Inr (ordered, tot))
   \<and> rows_mixed \<noteq> []
   \<and> list_all (\<lambda>r. r ''Q51'' = None) rows_mixed
   \<and> summarize rows_mixed ''Q51'' = Inl KeyError\<close>
proof -
  have a: \<open>list_all (\<lambda>r. has_string r ''Q29'') rows_mixed\<close>
    by code_simp
  have b: \<open>rows_mixed \<noteq> []\<close>
    by (simp add: rows_mixed_def)
  have c: \<open>list_all (\<lambda>r. r ''Q51'' = None) rows_mixed\<close>
    by (simp add: rows_mixed_def answer_row_def)
  from summarize_returns_iff [of rows_mixed \<open>''Q29''\<close>] summarize_returns_iff [of rows_mixed \<open>''Q51''\<close>]
    a b c
  show ?thesis by blast
qed

text \<open>
  C3. The total that \<open>summarize\<close> returns is the number of rows whose value in the
  column is non-empty after trimming, and it is the sum of the counts of the summary;
  the empty string is not among the answers of the summary.
\<close>

theorem summarize_total:
  assumes "summarize rows column = Inr (ordered, tot)"
  shows "tot = length [r \<leftarrow> rows. has_answer r column]
         \<and> tot = sum_list (map snd ordered)
         \<and> [] \<notin> set (map fst ordered)"
proof -
  have "tot = length [r \<leftarrow> rows. has_answer r column]"
    using summarize_Inr [OF assms] by (simp add: responses_def)
  moreover have "tot = sum_list (map snd ordered)"
    using assms by (rule summarize_sum)
  moreover have "set (map fst ordered) = set (responses rows column)"
    using assms by (rule sorted_keys_summarize)
  then have "[] \<notin> set (map fst ordered)"
    by (auto simp: responses_def has_answer_def)
  ultimately show ?thesis by simp
qed

theorem summarize_total_witness:
  \<open>summarize rows_mixed ''Q29'' =
     Inr ([(''Very unlikely'', 1), (''Very likely'', 2), (''zeta'', 2), (''alpha'', 1)], 6)
   \<and> (6::nat) = length [r \<leftarrow> rows_mixed. has_answer r ''Q29'']
   \<and> length rows_mixed = 7
   \<and> (6::nat) = sum_list (map snd [(''Very unlikely'', 1::nat), (''Very likely'', 2), (''zeta'', 2), (''alpha'', 1)])\<close>
  using summarize_total [OF summarize_rows_mixed] summarize_rows_mixed
  by (simp add: rows_mixed_def)

text \<open>
  C4. In the ordered list every answer occurs once. Of two answers of the question
  that are both in the rank table, the one of lower rank stands before the one of
  higher rank, whatever their counts; and an answer in the rank table stands before
  every answer that is not in it.
\<close>

theorem summarize_rank_order:
  assumes "summarize rows column = Inr (ordered, tot)"
    and "a \<in> set (responses rows column)" and "b \<in> set (responses rows column)"
  shows "(\<forall>ra rb. ORDER a = Some ra \<and> ORDER b = Some rb \<and> ra < rb
            \<longrightarrow> appears_before (map fst ordered) a b)
         \<and> (ORDER a \<noteq> None \<and> ORDER b = None \<longrightarrow> appears_before (map fst ordered) a b)
         \<and> distinct (map fst ordered)"
proof -
  note s = sorted_keys_summarize [OF assms(1)]
  have mem: "a \<in> set (map fst ordered)" "b \<in> set (map fst ordered)"
    using s(2) assms(2,3) by simp_all
  have lt: "appears_before (map fst ordered) a b" if "ORDER_get a 999 < ORDER_get b 999"
    using first_index_sorted [OF s(1) mem that] mem by (simp add: appears_before_def)
  have "appears_before (map fst ordered) a b"
    if "ORDER a = Some ra" "ORDER b = Some rb" "ra < rb" for ra rb
    using that by (intro lt) (simp add: ORDER_get_def)
  moreover have "appears_before (map fst ordered) a b" if "ORDER a \<noteq> None" "ORDER b = None"
  proof -
    from that(1) obtain ra where ra: "ORDER a = Some ra" by auto
    then have "ra \<le> 4" by (rule ORDER_le_4)
    with ra that(2) show ?thesis
      by (intro lt) (simp add: ORDER_get_def)
  qed
  ultimately show ?thesis
    using s(3) by blast
qed

theorem summarize_rank_order_witness:
  \<open>summarize rows_mixed ''Q29'' =
     Inr ([(''Very unlikely'', 1), (''Very likely'', 2), (''zeta'', 2), (''alpha'', 1)], 6)
   \<and> ''Very unlikely'' \<in> set (responses rows_mixed ''Q29'')
   \<and> ''Very likely'' \<in> set (responses rows_mixed ''Q29'')
   \<and> ''zeta'' \<in> set (responses rows_mixed ''Q29'')
   \<and> ORDER ''Very unlikely'' = Some 0 \<and> ORDER ''Very likely'' = Some 4 \<and> ORDER ''zeta'' = None
   \<and> appears_before [''Very unlikely'', ''Very likely'', ''zeta'', ''alpha''] ''Very unlikely'' ''Very likely''
   \<and> appears_before [''Very unlikely'', ''Very likely'', ''zeta'', ''alpha''] ''Very likely'' ''zeta''\<close>
proof -
  have m: \<open>''Very unlikely'' \<in> set (responses rows_mixed ''Q29'')\<close>
    \<open>''Very likely'' \<in> set (responses rows_mixed ''Q29'')\<close>
    \<open>''zeta'' \<in> set (responses rows_mixed ''Q29'')\<close>
    by (simp_all add: responses_rows_mixed)
  have o: \<open>ORDER ''Very unlikely'' = Some 0\<close> \<open>ORDER ''Very likely'' = Some 4\<close>
    \<open>ORDER ''zeta'' = None\<close>
    by (simp_all add: ORDER_def ORDER_items_def)
  from summarize_rank_order [OF summarize_rows_mixed m(1) m(2)] o
  have 1: \<open>appears_before [''Very unlikely'', ''Very likely'', ''zeta'', ''alpha'']
      ''Very unlikely'' ''Very likely''\<close>
    by simp
  from summarize_rank_order [OF summarize_rows_mixed m(2) m(3)] o
  have 2: \<open>appears_before [''Very unlikely'', ''Very likely'', ''zeta'', ''alpha'']
      ''Very likely'' ''zeta''\<close>
    by simp
  from summarize_rows_mixed m o 1 2 show ?thesis by simp
qed

text \<open>
  C9. Ties are settled by the order of first occurrence: of two answers of the
  question with the same sort key, the one that occurs first among the answers, in
  row order, stands first in the ordered list.
\<close>

theorem summarize_ties_first_seen:
  assumes "summarize rows column = Inr (ordered, tot)"
    and "a \<in> set (responses rows column)" and "b \<in> set (responses rows column)"
    and "sort_rank (a, ca) = sort_rank (b, cb)"
    and "first_index (responses rows column) a < first_index (responses rows column) b"
  shows "appears_before (map fst ordered) a b"
proof -
  let ?rk = "\<lambda>k. ORDER_get k 999"
  let ?P = "\<lambda>y. ?rk y = ?rk a"
  let ?keys = "map fst ordered"
  let ?resp = "responses rows column"
  have Pa: "?P a" by simp
  have Pb: "?P b" using assms(4) by (simp add: sort_rank_def)
  have keys: "?keys = sort_key ?rk (uniq ?resp)"
    using assms(1) by (rule keys_summarize)
  have "filter ?P ?keys = filter ?P (uniq ?resp)"
    unfolding keys by (rule sort_key_stable)
  then have "first_index ?keys a < first_index ?keys b
      \<longleftrightarrow> first_index (uniq ?resp) a < first_index (uniq ?resp) b"
    using first_index_filter [of ?P a b ?keys] first_index_filter [of ?P a b "uniq ?resp"] Pa Pb
    by simp
  with assms(5) have "first_index ?keys a < first_index ?keys b"
    by (simp add: first_index_uniq)
  moreover have "a \<in> set ?keys" "b \<in> set ?keys"
    using assms(2,3) by (simp_all add: keys set_uniq)
  ultimately show ?thesis
    by (simp add: appears_before_def)
qed

theorem summarize_ties_first_seen_witness:
  \<open>summarize rows_mixed ''Q29'' =
     Inr ([(''Very unlikely'', 1), (''Very likely'', 2), (''zeta'', 2), (''alpha'', 1)], 6)
   \<and> ''zeta'' \<in> set (responses rows_mixed ''Q29'')
   \<and> ''alpha'' \<in> set (responses rows_mixed ''Q29'')
   \<and> sort_rank (''zeta'', 2) = sort_rank (''alpha'', 1)
   \<and> first_index (responses rows_mixed ''Q29'') ''zeta''
       < first_index (responses rows_mixed ''Q29'') ''alpha''
   \<and> appears_before [''Very unlikely'', ''Very likely'', ''zeta'', ''alpha''] ''zeta'' ''alpha''\<close>
proof -
  have m: \<open>''zeta'' \<in> set (responses rows_mixed ''Q29'')\<close>
    \<open>''alpha'' \<in> set (responses rows_mixed ''Q29'')\<close>
    by (simp_all add: responses_rows_mixed)
  have k: \<open>sort_rank (''zeta'', 2) = sort_rank (''alpha'', 1)\<close>
    by (simp add: sort_rank_def ORDER_get_def ORDER_def ORDER_items_def)
  have f: \<open>first_index (responses rows_mixed ''Q29'') ''zeta''
      < first_index (responses rows_mixed ''Q29'') ''alpha''\<close>
    by (simp add: responses_rows_mixed)
  from summarize_ties_first_seen [OF summarize_rows_mixed m k f] summarize_rows_mixed m k f
  show ?thesis by simp
qed

section \<open>Properties of the float arithmetic\<close>

lemma round_half_even_le: "q \<le> of_int z \<Longrightarrow> round_half_even q \<le> z"
proof -
  assume q: "q \<le> of_int z"
  then have f: "\<lfloor>q\<rfloor> \<le> z" by (simp add: floor_le_iff)
  show ?thesis
  proof (cases "\<lfloor>q\<rfloor> = z")
    case True
    with q have "q - of_int \<lfloor>q\<rfloor> \<le> 0" by simp
    then have "q - of_int \<lfloor>q\<rfloor> < 1 / 2" by linarith
    with True show ?thesis by (simp add: round_half_even_def Let_def)
  next
    case False
    with f have "\<lfloor>q\<rfloor> + 1 \<le> z" by simp
    then show ?thesis by (auto simp: round_half_even_def Let_def)
  qed
qed

lemma round_half_even_nonneg: "0 \<le> q \<Longrightarrow> 0 \<le> round_half_even q"
  by (auto simp: round_half_even_def Let_def)

lemma float_exponent_le_0:
  assumes "0 < q" and "q \<le> 1"
  shows "float_exponent q \<le> 0"
proof -
  obtain n d where nd: "quotient_of q = (n, d)" by (cases "quotient_of q")
  then have d: "0 < d" by (rule quotient_of_denom_pos)
  from nd have q: "q = of_int n / of_int d" by (rule quotient_of_div)
  with assms d have "0 < n" "n \<le> d"
    by (simp_all add: zero_less_divide_iff divide_le_eq_1)
  then have "nat n \<le> nat d" by simp
  then have "bitlen n \<le> bitlen d"
    unfolding bitlen_def by (simp add: floorlog_mono)
  with assms nd show ?thesis
    by (simp add: float_exponent_def Let_def)
qed

lemma inverse_pow2:
  assumes "e \<le> 0"
  shows "1 / 2 powi e = (of_int (2 ^ nat (- e)) :: rat)"
proof -
  have "(2::rat) powi e = inverse (2 powi (- e))"
    using power_int_minus [of "2::rat" "- e"] by simp
  also have "(2::rat) powi (- e) = 2 ^ nat (- e)"
    using assms by (intro power_int_nonneg_exp) simp
  finally have "(2::rat) powi e = inverse (2 ^ nat (- e))" .
  then show ?thesis
    by (simp only: inverse_eq_divide div_by_1 divide_divide_eq_right mult_1 of_int_power of_int_numeral)
qed

text \<open>Rounding keeps a quotient of a count by its total between 0 and 1.\<close>

lemma fl_le_1:
  assumes "0 \<le> q" and "q \<le> 1"
  shows "0 \<le> fl q \<and> fl q \<le> 1"
proof (cases "q = 0")
  case True
  then show ?thesis by (simp add: fl_def)
next
  case False
  with assms have pos: "0 < q" by simp
  define e where "e = max (float_exponent q - 52) (- 1074)"
  have e: "e \<le> 0"
    using float_exponent_le_0 [OF pos assms(2)] by (simp add: e_def)
  have p: "(0::rat) < 2 powi e" by (simp add: zero_less_power_int)
  have inv: "1 / 2 powi e = (of_int (2 ^ nat (- e)) :: rat)"
    using e by (rule inverse_pow2)
  have "q / 2 powi e \<le> 1 / 2 powi e"
    using assms(2) p by (simp add: divide_right_mono)
  then have "round_half_even (q / 2 powi e) \<le> 2 ^ nat (- e)"
    unfolding inv by (rule round_half_even_le)
  then have "(of_int (round_half_even (q / 2 powi e)) :: rat) \<le> of_int (2 ^ nat (- e))"
    by (simp only: of_int_le_iff)
  then have "(of_int (round_half_even (q / 2 powi e)) :: rat) * 2 powi e
      \<le> (1 / 2 powi e) * 2 powi e"
    unfolding inv [symmetric] using p by (intro mult_right_mono) simp_all
  then have up: "of_int (round_half_even (q / 2 powi e)) * 2 powi e \<le> (1 :: rat)"
    using p by simp
  have "0 \<le> q / 2 powi e" using pos p by simp
  then have "0 \<le> round_half_even (q / 2 powi e)" by (rule round_half_even_nonneg)
  then have low: "(0::rat) \<le> of_int (round_half_even (q / 2 powi e)) * 2 powi e"
    using p by simp
  have "fl q = of_int (round_half_even (q / 2 powi e)) * 2 powi e"
    unfolding fl_def Let_def e_def using False by (simp only: if_False)
  with up low show ?thesis
    by (simp only:)
qed

text \<open>The division of a count by a total that is at least the count does not raise.\<close>

lemma truediv_le:
  assumes "0 < b" and "a \<le> b"
  shows "truediv a b = Inr (fl (of_nat a / of_nat b))
         \<and> 0 \<le> fl (of_nat a / of_nat b) \<and> fl (of_nat a / of_nat b) \<le> 1"
proof -
  have "0 \<le> (of_nat a / of_nat b :: rat)" "(of_nat a / of_nat b :: rat) \<le> 1"
    using assms by (simp_all add: divide_le_eq_1)
  then have r: "0 \<le> fl (of_nat a / of_nat b)" "fl (of_nat a / of_nat b) \<le> 1"
    using fl_le_1 by blast+
  have "\<not> 1024 \<le> float_exponent (fl (of_nat a / of_nat b))"
    if "fl (of_nat a / of_nat b) \<noteq> 0"
    using float_exponent_le_0 [of "fl (of_nat a / of_nat b)"] r that by simp
  then have "truediv a b = Inr (fl (of_nat a / of_nat b))"
    unfolding truediv_def Let_def using assms(1) by auto
  with r show ?thesis
    by simp
qed

text \<open>The exponent brackets the number, and rounding moves a number in the normal
  range by at most the fraction \<open>2 ^ - 53\<close> of it.\<close>

lemma bitlen_powi_bounds:
  assumes "0 < x"
  shows "(2::rat) powi (bitlen x - 1) \<le> of_int x" and "of_int x < (2::rat) powi bitlen x"
proof -
  from assms have b: "1 \<le> bitlen x" by (auto simp: bitlen_alt_def)
  from bitlen_bounds [OF assms] have l: "2 ^ nat (bitlen x - 1) \<le> x" and u: "x < 2 ^ nat (bitlen x)"
    by simp_all
  have "(2::rat) powi (bitlen x - 1) = 2 ^ nat (bitlen x - 1)"
    using b by (intro power_int_nonneg_exp) simp
  also have "\<dots> = of_int (2 ^ nat (bitlen x - 1))" by simp
  also have "\<dots> \<le> of_int x" using l by (simp only: of_int_le_iff)
  finally show "(2::rat) powi (bitlen x - 1) \<le> of_int x" .
  have "(of_int x :: rat) < of_int (2 ^ nat (bitlen x))" using u by (simp only: of_int_less_iff)
  also have "\<dots> = 2 ^ nat (bitlen x)" by simp
  also have "\<dots> = (2::rat) powi bitlen x"
    using b by (intro power_int_nonneg_exp [symmetric]) simp
  finally show "of_int x < (2::rat) powi bitlen x" .
qed

lemma float_exponent_bounds:
  assumes "0 < q"
  shows "2 powi float_exponent q \<le> q" and "q < 2 powi (float_exponent q + 1)"
proof -
  obtain n d where nd: "quotient_of q = (n, d)" by (cases "quotient_of q")
  then have d: "0 < d" by (rule quotient_of_denom_pos)
  from nd have q: "q = of_int n / of_int d" by (rule quotient_of_div)
  with assms d have n: "0 < n" by (simp add: zero_less_divide_iff)
  define k where "k = bitlen n - bitlen d"
  note bn = bitlen_powi_bounds [OF n] and bd = bitlen_powi_bounds [OF d]
  have dpos: "(0::rat) < of_int d" using d by simp
  have npos: "(0::rat) < of_int n" using n by simp
  have p: "(0::rat) < 2 powi i" for i by (simp add: zero_less_power_int)
  have low: "2 powi (k - 1) < q"
  proof -
    have "2 powi (k - 1) = (2::rat) powi (bitlen n - 1) / 2 powi bitlen d"
      by (simp add: k_def power_int_diff)
    also have "\<dots> \<le> of_int n / 2 powi bitlen d"
      using bn(1) p by (simp add: divide_right_mono)
    also have "\<dots> < of_int n / of_int d"
      using bd(2) npos dpos by (simp add: divide_strict_left_mono)
    finally show ?thesis by (simp add: q)
  qed
  have up: "q < 2 powi (k + 1)"
  proof -
    have "q = of_int n / of_int d" by (rule q)
    also have "\<dots> < 2 powi bitlen n / of_int d"
      using bn(2) dpos by (simp add: divide_strict_right_mono)
    also have "\<dots> \<le> 2 powi bitlen n / 2 powi (bitlen d - 1)"
      using bd(1) p [of "bitlen n"] p [of "bitlen d - 1"] dpos
      by (intro divide_left_mono) simp_all
    also have "\<dots> = 2 powi (bitlen n - (bitlen d - 1))"
      by (rule power_int_diff [symmetric]) simp
    also have "bitlen n - (bitlen d - 1) = k + 1"
      by (simp add: k_def)
    finally show ?thesis .
  qed
  have fe: "float_exponent q = (if q < 2 powi k then k - 1 else k)"
    using assms nd by (simp add: float_exponent_def k_def Let_def)
  show "2 powi float_exponent q \<le> q"
    using low by (simp add: fe)
  show "q < 2 powi (float_exponent q + 1)"
    using up by (simp add: fe)
qed

lemma round_half_even_error: "\<bar>of_int (round_half_even x) - x\<bar> \<le> 1 / 2"
proof -
  have "of_int \<lfloor>x\<rfloor> \<le> x" "x < of_int \<lfloor>x\<rfloor> + 1" by linarith+
  then show ?thesis
    by (auto simp: round_half_even_def Let_def abs_le_iff)
qed

lemma float_exponent_ge:
  assumes "2 powi i \<le> q"
  shows "i \<le> float_exponent q"
proof (rule ccontr)
  assume "\<not> i \<le> float_exponent q"
  then have "float_exponent q + 1 \<le> i" by simp
  then have "(2::rat) powi (float_exponent q + 1) \<le> 2 powi i"
    by (intro power_int_increasing) simp_all
  moreover have "(0::rat) < 2 powi i" by simp
  with assms have "0 < q" by linarith
  then have "q < 2 powi (float_exponent q + 1)" by (rule float_exponent_bounds)
  ultimately show False using assms by simp
qed

lemma fl_error:
  assumes "0 < q" and "- 1022 \<le> float_exponent q"
  shows "\<bar>fl q - q\<bar> \<le> q * 2 powi (- 53)"
proof -
  define e where "e = float_exponent q - 52"
  define m where "m = round_half_even (q / 2 powi e)"
  have p: "(0::rat) < 2 powi i" for i by simp
  have "max (float_exponent q - 52) (- 1074) = e"
    using assms(2) by (simp add: e_def)
  then have flq: "fl q = of_int m * 2 powi e"
    using assms(1) by (simp add: fl_def Let_def m_def)
  have "fl q - q = (of_int m - q / 2 powi e) * 2 powi e"
    using p [of e] by (simp add: flq algebra_simps)
  then have "\<bar>fl q - q\<bar> = \<bar>of_int m - q / 2 powi e\<bar> * 2 powi e"
    using p [of e] by (simp add: abs_mult)
  also have "\<dots> \<le> (1 / 2) * 2 powi e"
    unfolding m_def using p [of e] by (intro mult_right_mono round_half_even_error) simp
  also have "(1 / 2) * (2::rat) powi e = 2 powi (- 1) * 2 powi e" by simp
  also have "\<dots> = 2 powi (- 1 + e)" by (rule power_int_add [symmetric]) simp
  also have "- 1 + e = float_exponent q + (- 53)" by (simp add: e_def)
  also have "(2::rat) powi (float_exponent q + (- 53)) = 2 powi float_exponent q * 2 powi (- 53)"
    by (rule power_int_add) simp
  also have "\<dots> \<le> q * 2 powi (- 53)"
    using float_exponent_bounds(1) [OF assms(1)] p [of "- 53"] by (intro mult_right_mono) simp_all
  finally show ?thesis .
qed

lemma ratio_ge:
  assumes "1 \<le> c" and "0 < t" and "t \<le> 2 ^ n"
  shows "(2::rat) powi (- int n) \<le> of_nat c / of_nat t"
proof -
  have "(of_nat t :: rat) \<le> of_nat (2 ^ n)" using assms(3) by (simp only: of_nat_le_iff)
  then have t: "(of_nat t :: rat) \<le> 2 ^ n" by simp
  have tpos: "(0::rat) < of_nat t" using assms(2) by simp
  have "(2::rat) powi (- int n) = 1 / 2 ^ n"
    by (simp add: power_int_minus inverse_eq_divide)
  also have "\<dots> \<le> 1 / of_nat t"
    using t tpos by (intro divide_left_mono) simp_all
  also have "\<dots> \<le> of_nat c / of_nat t"
    using assms(1) tpos by (intro divide_right_mono) simp_all
  finally show ?thesis .
qed

section \<open>Properties of the renderer\<close>

lemma segment_zero_total: "segment_pct count 0 = Inr 0 \<and> segment_width count 0 = Inr 0"
  by (simp add: segment_pct_def segment_width_def)

lemma segment_ok:
  assumes "count \<le> tot"
  shows "\<exists>pct seg_w. segment_pct count tot = Inr pct \<and> segment_width count tot = Inr seg_w"
proof (cases "tot = 0")
  case True
  then show ?thesis by (simp add: segment_zero_total)
next
  case False
  then have "0 < tot" by simp
  from truediv_le [OF this assms] obtain q where "truediv count tot = Inr q" by simp
  with False show ?thesis
    by (simp add: segment_pct_def segment_width_def proportional_width_def)
qed

lemma render_segment_ok:
  assumes "segment_pct count tot = Inr pct" and "segment_width count tot = Inr seg_w"
  shows "\<exists>parts x'. render_segment x y tot (t, count) = Inr (parts, x') \<and> parts \<noteq> []"
  using assms by (simp add: render_segment_def Let_def)

text \<open>The segment loop does not raise on entries whose counts are at most the total,
  and it appends nothing exactly when there is no entry.\<close>

lemma render_entries_ok:
  assumes "\<forall>kv \<in> set entries. snd kv \<le> tot"
  shows "\<exists>segs. render_entries x y tot entries = Inr segs \<and> (segs = [] \<longleftrightarrow> entries = [])"
  using assms
proof (induction entries arbitrary: x)
  case Nil
  then show ?case by simp
next
  case (Cons entry entries)
  obtain t count where entry: "entry = (t, count)" by (cases entry)
  with Cons.prems have "count \<le> tot" by simp
  from segment_ok [OF this] obtain pct seg_w where
    "segment_pct count tot = Inr pct" "segment_width count tot = Inr seg_w" by blast
  from render_segment_ok [OF this] obtain parts x' where
    seg: "render_segment x y tot (t, count) = Inr (parts, x')" and ne: "parts \<noteq> []" by blast
  from Cons.prems have "\<forall>kv \<in> set entries. snd kv \<le> tot" by simp
  from Cons.IH [OF this] obtain segs where "render_entries x' y tot entries = Inr segs" by blast
  with seg ne entry show ?case by simp
qed

lemma render_entries_zero_total: "\<exists>parts. render_entries x y 0 entries = Inr parts"
proof (induction entries arbitrary: x)
  case Nil
  then show ?case by simp
next
  case (Cons entry entries)
  obtain t count where entry: "entry = (t, count)" by (cases entry)
  have "segment_pct count 0 = Inr 0" "segment_width count 0 = Inr 0"
    by (simp_all add: segment_zero_total)
  from render_segment_ok [OF this] obtain parts x' where
    seg: "render_segment x y 0 (t, count) = Inr (parts, x')" by blast
  from Cons.IH obtain segs where "render_entries x' y 0 entries = Inr segs" by blast
  with seg entry show ?case by simp
qed

text \<open>
  C5. A summary with total 0 has no entry: its row is the card and the label of the
  question, the segment loop appends nothing, and nothing is divided. Whatever the
  count, the guarded percentage and the guarded width of a zero total are 0, and the
  segment loop over any entries with a zero total does not raise.
\<close>

theorem zero_total_no_fault:
  assumes "summarize rows column = Inr (entries, 0)"
  shows "render_row i (label, entries, 0)
           = Inr [card_rect (top_margin + int i * row_gap),
                  question_label (top_margin + int i * row_gap) label]
         \<and> render_entries x y 0 entries = Inr []
         \<and> (\<forall>count. segment_pct count 0 = Inr 0 \<and> segment_width count 0 = Inr 0)
         \<and> (\<forall>es. \<exists>parts. render_entries x y 0 es = Inr parts)"
proof -
  from summarize_counts(2) [OF assms] have "entries = []" by simp
  then show ?thesis
    by (simp add: render_row_def Let_def segment_zero_total render_entries_zero_total)
qed

theorem zero_total_no_fault_witness:
  \<open>summarize rows_blank ''Q29'' = Inr ([], 0)
   \<and> render_row 0 (''Likelihood of pursuing CPA license'', [], 0)
       = Inr [''<rect x="70" y="126" width="1260" height="92" rx="16" fill="#ffffff" filter="url(#cardShadow)"/>'',
              ''<text x="90" y="162" font-size="22" font-family="Segoe UI, Arial, sans-serif" font-weight="600" fill="#102a43">Likelihood of pursuing CPA license</text>'']
   \<and> segment_pct 3 0 = Inr 0 \<and> segment_width 3 0 = Inr 0\<close>
proof -
  have c: \<open>card_rect (top_margin + int 0 * row_gap)
      = ''<rect x="70" y="126" width="1260" height="92" rx="16" fill="#ffffff" filter="url(#cardShadow)"/>''\<close>
    by code_simp
  have q: \<open>question_label (top_margin + int 0 * row_gap) ''Likelihood of pursuing CPA license''
      = ''<text x="90" y="162" font-size="22" font-family="Segoe UI, Arial, sans-serif" font-weight="600" fill="#102a43">Likelihood of pursuing CPA license</text>''\<close>
    by code_simp
  from zero_total_no_fault [OF summarize_rows_blank, of 0 \<open>''Likelihood of pursuing CPA license''\<close>]
    summarize_rows_blank
  show ?thesis
    by (simp only: c q)
qed

text \<open>
  C6 as stated fails on the floats of the renderer. For one \<^verbatim>\<open>Very unlikely\<close> among
  eight \<^verbatim>\<open>Very likely\<close> the two proportional widths are the floats
  \<open>780 * (1 / 9)\<close> and \<open>780 * (8 / 9)\<close>, and their sum is \<open>780 - 3 / 2 ^ 45\<close>.
\<close>

theorem width_sum_counterexample:
  \<open>summarize rows_1_8 ''Q29'' = Inr ([(''Very unlikely'', 1), (''Very likely'', 8)], 9)
   \<and> proportional_width 1 9 = Inr (3049312247698773 / 2 ^ 45)
   \<and> proportional_width 8 9 = Inr (3049312247698773 / 2 ^ 42)
   \<and> width_sum [(''Very unlikely'', 1), (''Very likely'', 8)] 9 = Inr (780 - 3 / 2 ^ 45)
   \<and> width_sum [(''Very unlikely'', 1), (''Very likely'', 8)] 9 \<noteq> Inr chart_width\<close>
proof -
  have 1: "proportional_width 1 9 = Inr (3049312247698773 / 2 ^ 45)"
    by code_simp
  have 2: "proportional_width 8 9 = Inr (3049312247698773 / 2 ^ 42)"
    by code_simp
  have 3: \<open>width_sum [(''Very unlikely'', 1), (''Very likely'', 8)] 9 = Inr (780 - 3 / 2 ^ 45)\<close>
    by code_simp
  have 4: \<open>width_sum [(''Very unlikely'', 1), (''Very likely'', 8)] 9 \<noteq> Inr chart_width\<close>
    unfolding 3 by (simp add: chart_width_def)
  from summarize_rows_1_8 1 2 3 4 show ?thesis by simp
qed

lemma exact_sum:
  fixes c :: rat
  shows "(\<Sum>kv\<leftarrow>entries. c * (of_nat (snd kv) / of_nat tot))
         = c * (of_nat (sum_list (map snd entries)) / of_nat tot)"
  by (induction entries) (simp_all add: algebra_simps add_divide_distrib)

text \<open>The error of one computed width, and of the sum of the computed widths.\<close>

lemma width_error:
  assumes "1 \<le> c" and "c \<le> t" and "t \<le> 2 ^ n" and "n \<le> 1000"
  shows "\<bar>fl (chart_width * fl (of_nat c / of_nat t)) - chart_width * (of_nat c / of_nat t)\<bar>
         \<le> chart_width * (of_nat c / of_nat t) * (2 * 2 powi (- 53) + 2 powi (- 53) * 2 powi (- 53))"
proof -
  define r :: rat where "r = of_nat c / of_nat t"
  define u :: rat where "u = 2 powi (- 53)"
  define q where "q = fl r"
  define w where "w = fl (780 * q)"
  from assms(1,2) have t: "0 < t" by simp
  have u: "0 < u" "u \<le> 1 / 2" by (simp_all add: u_def)
  have lo: "2 powi (- int n) \<le> r"
    unfolding r_def using assms(1) t assms(3) by (rule ratio_ge)
  have rpos: "0 < r"
    using assms(1) t by (simp add: r_def)
  have "- int n \<le> float_exponent r" using lo by (rule float_exponent_ge)
  with assms(4) have "- 1022 \<le> float_exponent r" by simp
  from fl_error [OF rpos this] have e1: "\<bar>q - r\<bar> \<le> r * u"
    by (simp add: q_def u_def)
  have ru: "r * u \<le> r * (1 / 2)"
    using u(2) rpos by (intro mult_left_mono) simp_all
  from e1 ru have qlo: "r * (1 / 2) \<le> q" by (simp add: abs_le_iff)
  from e1 have qhi: "q \<le> r + r * u" by (simp add: abs_le_iff)
  have "(2::rat) powi (- int n - 1) = 2 powi (- int n) * 2 powi (- 1)"
    using power_int_add [of "2::rat" "- int n" "- 1"] by simp
  also have "\<dots> \<le> r * (1 / 2)"
    using lo by simp
  finally have lo2: "2 powi (- int n - 1) \<le> q" using qlo by simp
  have "(0::rat) < 2 powi (- int n - 1)" by simp
  with lo2 have qpos: "0 < q" by linarith
  then have "q \<le> 780 * q" by simp
  with lo2 have "2 powi (- int n - 1) \<le> 780 * q" by simp
  then have "- int n - 1 \<le> float_exponent (780 * q)" by (rule float_exponent_ge)
  with assms(4) have "- 1022 \<le> float_exponent (780 * q)" by simp
  moreover from qpos have "0 < 780 * q" by simp
  ultimately have e2: "\<bar>w - 780 * q\<bar> \<le> 780 * q * u"
    using fl_error [of "780 * q"] by (simp add: w_def u_def)
  have "780 * q * u \<le> 780 * (r + r * u) * u"
    using qhi u(1) by (intro mult_right_mono mult_left_mono) simp_all
  with e2 have e3: "\<bar>w - 780 * q\<bar> \<le> 780 * (r + r * u) * u" by simp
  have "\<bar>780 * q - 780 * r\<bar> = \<bar>780 * (q - r)\<bar>"
    by (simp only: right_diff_distrib)
  also have "\<dots> = 780 * \<bar>q - r\<bar>"
    by (simp only: abs_mult abs_numeral)
  finally have "\<bar>780 * q - 780 * r\<bar> = 780 * \<bar>q - r\<bar>" .
  then have "\<bar>w - 780 * r\<bar> \<le> \<bar>w - 780 * q\<bar> + 780 * \<bar>q - r\<bar>"
    by linarith
  also have "\<dots> \<le> 780 * (r + r * u) * u + 780 * (r * u)"
    using e3 e1 by simp
  also have "\<dots> = 780 * r * (2 * u + u * u)"
    by (simp add: algebra_simps)
  finally show ?thesis
    by (simp only: w_def q_def r_def u_def chart_width_def)
qed

lemma width_sum_error:
  assumes "\<forall>kv \<in> set es. 1 \<le> snd kv \<and> snd kv \<le> t" and "t \<le> 2 ^ n" and "n \<le> 1000"
  shows "\<exists>s. width_sum es t = Inr s
           \<and> \<bar>s - (\<Sum>kv\<leftarrow>es. chart_width * (of_nat (snd kv) / of_nat t))\<bar>
               \<le> (\<Sum>kv\<leftarrow>es. chart_width * (of_nat (snd kv) / of_nat t))
                   * (2 * 2 powi (- 53) + 2 powi (- 53) * 2 powi (- 53))"
  using assms(1)
proof (induction es)
  case Nil
  then show ?case by simp
next
  case (Cons entry es)
  let ?eps = "2 * 2 powi (- 53) + 2 powi (- 53) * 2 powi (- 53) :: rat"
  let ?a = "chart_width * (of_nat (snd entry) / of_nat t)"
  let ?A = "\<Sum>kv\<leftarrow>es. chart_width * (of_nat (snd kv) / of_nat t)"
  let ?w = "fl (chart_width * fl (of_nat (snd entry) / of_nat t))"
  from Cons.prems have c: "1 \<le> snd entry" "snd entry \<le> t" by simp_all
  then have t: "0 < t" by simp
  from truediv_le [OF t c(2)] have pw: "proportional_width (snd entry) t = Inr ?w"
    by (simp add: proportional_width_def)
  from width_error [OF c assms(2,3)] have ew: "\<bar>?w - ?a\<bar> \<le> ?a * ?eps" .
  from Cons.prems have "\<forall>kv \<in> set es. 1 \<le> snd kv \<and> snd kv \<le> t" by simp
  from Cons.IH [OF this] obtain s where
    s: "width_sum es t = Inr s" and es: "\<bar>s - ?A\<bar> \<le> ?A * ?eps" by blast
  have "\<bar>(?w + s) - (?a + ?A)\<bar> \<le> \<bar>?w - ?a\<bar> + \<bar>s - ?A\<bar>"
    by linarith
  also have "\<dots> \<le> ?a * ?eps + ?A * ?eps"
    using ew es by (rule add_mono)
  also have "\<dots> = (?a + ?A) * ?eps"
    by (simp only: distrib_right)
  finally have "\<bar>(?w + s) - (?a + ?A)\<bar> \<le> (?a + ?A) * ?eps" .
  with pw s show ?case by simp
qed

text \<open>
  C6, amended. For a summary with a positive total the exact proportional widths
  \<open>chart_width * count / total\<close> sum to the chart width of 780. The width that the
  renderer computes for an entry is this quotient and this product, each rounded to
  the nearest float; for a total of at most \<open>2 ^ 1000\<close> the computed widths sum to
  780 within \<open>2 ^ - 42\<close>.
\<close>

theorem proportional_widths_sum:
  assumes "summarize rows column = Inr (entries, tot)" and "0 < tot"
  shows "(\<Sum>kv\<leftarrow>entries. chart_width * (of_nat (snd kv) / of_nat tot)) = 780
         \<and> (\<forall>kv \<in> set entries.
               proportional_width (snd kv) tot
                 = Inr (fl (chart_width * fl (of_nat (snd kv) / of_nat tot))))
         \<and> (tot \<le> 2 ^ 1000 \<longrightarrow>
               (\<exists>s. width_sum entries tot = Inr s \<and> \<bar>s - 780\<bar> < 1 / 2 ^ 42))"
proof -
  let ?A = "\<Sum>kv\<leftarrow>entries. chart_width * (of_nat (snd kv) / of_nat tot)"
  have "?A = chart_width * (of_nat (sum_list (map snd entries)) / of_nat tot)"
    by (rule exact_sum)
  also have "\<dots> = chart_width * (of_nat tot / of_nat tot)"
    using summarize_sum [OF assms(1)] by simp
  also have "\<dots> = 780"
    using assms(2) by (simp add: chart_width_def)
  finally have 1: "?A = 780" .
  have 2: "proportional_width (snd kv) tot
      = Inr (fl (chart_width * fl (of_nat (snd kv) / of_nat tot)))" if "kv \<in> set entries" for kv
  proof -
    from that count_le_total [OF assms(1)] have "snd kv \<le> tot" by blast
    from truediv_le [OF assms(2) this] show ?thesis
      by (simp add: proportional_width_def)
  qed
  have 3: "\<exists>s. width_sum entries tot = Inr s \<and> \<bar>s - 780\<bar> < 1 / 2 ^ 42" if "tot \<le> 2 ^ 1000"
  proof -
    have "\<forall>kv \<in> set entries. 1 \<le> snd kv \<and> snd kv \<le> tot"
      using summarize_counts(1) [OF assms(1)] count_le_total [OF assms(1)] by blast
    from width_sum_error [OF this that] obtain s where
      s: "width_sum entries tot = Inr s"
      and e: "\<bar>s - ?A\<bar> \<le> ?A * (2 * 2 powi (- 53) + 2 powi (- 53) * 2 powi (- 53))"
      by auto
    have "(780::rat) * (2 * 2 powi (- 53) + 2 powi (- 53) * 2 powi (- 53)) < 1 / 2 ^ 42"
      by simp
    with e have "\<bar>s - 780\<bar> < 1 / 2 ^ 42"
      unfolding 1 by (rule le_less_trans)
    with s show ?thesis by blast
  qed
  from 1 2 3 show ?thesis by blast
qed

theorem proportional_widths_sum_witness:
  \<open>summarize rows_1_8 ''Q29'' = Inr ([(''Very unlikely'', 1), (''Very likely'', 8)], 9)
   \<and> (0::nat) < 9 \<and> (9::nat) \<le> 2 ^ 1000
   \<and> chart_width * (of_nat 1 / of_nat 9) + chart_width * (of_nat 8 / of_nat 9) = 780
   \<and> proportional_width 8 9 = Inr (fl (chart_width * fl (of_nat 8 / of_nat 9)))
   \<and> (\<exists>s. width_sum [(''Very unlikely'', 1), (''Very likely'', 8)] 9 = Inr s
          \<and> \<bar>s - 780\<bar> < 1 / 2 ^ 42)\<close>
proof -
  have "(9::nat) \<le> 2 ^ 4" by simp
  also have "(2::nat) ^ 4 \<le> 2 ^ 1000" by (rule power_increasing) simp_all
  finally have b: "(9::nat) \<le> 2 ^ 1000" .
  have pos: "(0::nat) < 9" by simp
  note t = proportional_widths_sum [OF summarize_rows_1_8 pos]
  from t have s: "chart_width * (of_nat 1 / of_nat 9) + chart_width * (of_nat 8 / of_nat 9) = 780"
    by simp
  from t have p: "proportional_width 8 9 = Inr (fl (chart_width * fl (of_nat 8 / of_nat 9)))"
    by simp
  from t b have e: \<open>\<exists>s. width_sum [(''Very unlikely'', 1), (''Very likely'', 8)] 9 = Inr s
      \<and> \<bar>s - 780\<bar> < 1 / 2 ^ 42\<close>
    by blast
  from summarize_rows_1_8 pos b s p e show ?thesis by blast
qed

text \<open>
  C7. The parts of one segment are its bar and its labels. When the width is above
  115 the labels are the answer text and the percentage, both anchored in the middle
  at the centre \<open>x + seg_w / 2\<close> of the segment; otherwise the only label is the
  percentage, placed 6 units to the right of the end \<open>x + seg_w\<close> of the segment.
\<close>

theorem render_segment_labels:
  assumes "render_segment x y tot (answer, count) = Inr (parts, x')"
  shows "\<exists>pct seg_w rect.
           segment_pct count tot = Inr pct \<and> segment_width count tot = Inr seg_w
           \<and> rect = segment_rect x y seg_w (COLOR_SCALE_get (ORDER_get answer 2) ''#6b778d'')
           \<and> (115 < seg_w \<longrightarrow>
                parts = [rect,
                         inside_label (fl (x + fl (seg_w / 2))) (y + 21) answer,
                         inside_pct (fl (x + fl (seg_w / 2))) (y + 39) pct])
           \<and> (seg_w \<le> 115 \<longrightarrow>
                parts = [rect, outside_pct (fl (fl (x + seg_w) + 6)) (y + 28) pct])
           \<and> x' = fl (x + seg_w)"
  using assms
  by (auto simp: render_segment_def Let_def split: sum.splits if_splits)

theorem render_segment_labels_witness:
  \<open>render_segment 520 170 9 (''Very unlikely'', 1)
     = Inr ([''<rect x="520.0" y="170" width="86.7" height="46" fill="#8b1e3f"/>'',
             ''<text x="612.7" y="198" font-size="13" font-family="Segoe UI, Arial, sans-serif" fill="#334e68">11.1%</text>''],
            5336296433472853 / 8796093022208)
   \<and> segment_width 1 9 = Inr (3049312247698773 / 2 ^ 45)
   \<and> render_segment (5336296433472853 / 8796093022208) 170 9 (''Very likely'', 8)
     = Inr ([''<rect x="606.7" y="170" width="693.3" height="46" fill="#1d7a8c"/>'',
             ''<text x="953.3" y="191" text-anchor="middle" font-size="13" font-family="Segoe UI, Arial, sans-serif" fill="#ffffff" font-weight="600">Very likely</text>'',
             ''<text x="953.3" y="209" text-anchor="middle" font-size="15" font-family="Segoe UI, Arial, sans-serif" fill="#ffffff" font-weight="700">88.9%</text>''],
            1300)
   \<and> segment_width 8 9 = Inr (3049312247698773 / 2 ^ 42)\<close>
proof -
  have n: \<open>render_segment 520 170 9 (''Very unlikely'', 1)
     = Inr ([''<rect x="520.0" y="170" width="86.7" height="46" fill="#8b1e3f"/>'',
             ''<text x="612.7" y="198" font-size="13" font-family="Segoe UI, Arial, sans-serif" fill="#334e68">11.1%</text>''],
            5336296433472853 / 8796093022208)\<close>
    by code_simp
  have w: \<open>render_segment (5336296433472853 / 8796093022208) 170 9 (''Very likely'', 8)
     = Inr ([''<rect x="606.7" y="170" width="693.3" height="46" fill="#1d7a8c"/>'',
             ''<text x="953.3" y="191" text-anchor="middle" font-size="13" font-family="Segoe UI, Arial, sans-serif" fill="#ffffff" font-weight="600">Very likely</text>'',
             ''<text x="953.3" y="209" text-anchor="middle" font-size="15" font-family="Segoe UI, Arial, sans-serif" fill="#ffffff" font-weight="700">88.9%</text>''],
            1300)\<close>
    by code_simp
  have s: "segment_width 1 9 = Inr (3049312247698773 / 2 ^ 45)"
    "segment_width 8 9 = Inr (3049312247698773 / 2 ^ 42)"
    by code_simp+
  from render_segment_labels [OF n] render_segment_labels [OF w] n w s
  show ?thesis by simp
qed

text \<open>
  C10. Every count of a summary is at least 1, so the total is 0 exactly when the
  summary has no entry; the segment loop of its row does not raise, and it appends
  no part exactly when the total is 0.
\<close>

theorem summarize_counts_positive:
  assumes "summarize rows column = Inr (entries, tot)"
  shows "(\<forall>kv \<in> set entries. 1 \<le> snd kv)
         \<and> (tot = 0 \<longleftrightarrow> entries = [])
         \<and> (\<exists>segs. render_entries x y tot entries = Inr segs \<and> (segs = [] \<longleftrightarrow> tot = 0))"
proof -
  note c = summarize_counts [OF assms]
  from render_entries_ok [OF count_le_total [OF assms]] obtain segs where
    "render_entries x y tot entries = Inr segs" "segs = [] \<longleftrightarrow> entries = []"
    by blast
  with c show ?thesis by simp
qed

theorem summarize_counts_positive_witness:
  \<open>summarize rows_mixed ''Q29'' =
     Inr ([(''Very unlikely'', 1), (''Very likely'', 2), (''zeta'', 2), (''alpha'', 1)], 6)
   \<and> (\<exists>segs. render_entries chart_left 170 6
         [(''Very unlikely'', 1), (''Very likely'', 2), (''zeta'', 2), (''alpha'', 1)] = Inr segs
        \<and> segs \<noteq> [])
   \<and> summarize rows_blank ''Q29'' = Inr ([], 0)
   \<and> render_entries chart_left 170 0 [] = Inr []\<close>
  using summarize_counts_positive [OF summarize_rows_mixed, of chart_left 170]
    summarize_counts_positive [OF summarize_rows_blank, of chart_left 170]
    summarize_rows_mixed summarize_rows_blank
  by simp

section \<open>Properties of the entry point\<close>

lemma load_rows_same_file:
  "files w1 path = files w2 path \<Longrightarrow> load_rows reader w1 path = load_rows reader w2 path"
  by (simp add: load_rows_def)

lemma paths_differ: "CSV_PATH base \<noteq> OUTPUT_PATH base"
  by (simp add: CSV_PATH_def OUTPUT_PATH_def)

lemma main_Inr:
  assumes "main reader base w = Inr w'"
  shows "\<exists>rows results svg.
           load_rows reader w (CSV_PATH base) = Inr rows
           \<and> summarize_all rows QUESTIONS = Inr results
           \<and> make_svg results (length rows) = Inr svg
           \<and> writable w (OUTPUT_PATH base)
           \<and> w' = print_line (w\<lparr>files := (files w)(OUTPUT_PATH base \<mapsto> svg)\<rparr>)
                     (''Wrote '' @ OUTPUT_PATH base)"
  using assms by (auto simp: main_def write_text_def split: sum.splits if_splits)

lemma main_run:
  assumes "load_rows reader w (CSV_PATH base) = Inr rows"
    and "summarize_all rows QUESTIONS = Inr results"
    and "make_svg results (length rows) = Inr svg"
    and "writable w (OUTPUT_PATH base)"
  shows "main reader base w
           = Inr (print_line (w\<lparr>files := (files w)(OUTPUT_PATH base \<mapsto> svg)\<rparr>)
                    (''Wrote '' @ OUTPUT_PATH base))"
  using assms by (simp add: main_def write_text_def)

text \<open>The pipeline does not raise on rows that have a string in every question column.\<close>

lemma summarize_all_ok:
  assumes "\<forall>q \<in> set questions. \<forall>r \<in> set rows. has_string r (fst q)"
  shows "\<exists>results. summarize_all rows questions = Inr results
           \<and> (\<forall>res \<in> set results. \<forall>kv \<in> set (fst (snd res)). snd kv \<le> snd (snd res))"
  using assms
proof (induction questions)
  case Nil
  then show ?case by simp
next
  case (Cons q questions)
  obtain col label where q: "q = (col, label)" by (cases q)
  with Cons.prems have "\<forall>r \<in> set rows. has_string r col" by simp
  then have "\<exists>vals. answers rows col = Inr vals" by (simp add: answers_Inr_iff)
  then obtain entries tot where s: "summarize rows col = Inr (entries, tot)"
    by (auto simp: summarize_def Let_def)
  from Cons.prems have "\<forall>q \<in> set questions. \<forall>r \<in> set rows. has_string r (fst q)" by simp
  from Cons.IH [OF this] obtain results where
    r: "summarize_all rows questions = Inr results"
    "\<forall>res \<in> set results. \<forall>kv \<in> set (fst (snd res)). snd kv \<le> snd (snd res)"
    by blast
  from s r count_le_total [OF s] q show ?case by simp
qed

lemma render_rows_ok:
  assumes "\<forall>res \<in> set results. \<forall>kv \<in> set (fst (snd res)). snd kv \<le> snd (snd res)"
  shows "\<exists>parts. render_rows i results = Inr parts"
  using assms
proof (induction results arbitrary: i)
  case Nil
  then show ?case by simp
next
  case (Cons res results)
  obtain label entries tot where res: "res = (label, entries, tot)" by (cases res)
  with Cons.prems have "\<forall>kv \<in> set entries. snd kv \<le> tot" by simp
  from render_entries_ok [OF this] obtain segs where
    "render_entries chart_left (top_margin + int i * row_gap) tot entries = Inr segs"
    by blast
  then have "\<exists>parts. render_row i res = Inr parts"
    by (simp add: render_row_def res Let_def)
  moreover from Cons.prems have
    "\<forall>res \<in> set results. \<forall>kv \<in> set (fst (snd res)). snd kv \<le> snd (snd res)" by simp
  from Cons.IH [OF this] have "\<exists>parts. render_rows (Suc i) results = Inr parts" .
  ultimately show ?case by auto
qed

lemma main_ok:
  assumes "files w (CSV_PATH base) = Some content" and "reader content = Inr rows"
    and "\<forall>q \<in> set QUESTIONS. \<forall>r \<in> set (filter clean_row rows). has_string r (fst q)"
    and "writable w (OUTPUT_PATH base)"
  shows "\<exists>w'. main reader base w = Inr w'"
proof -
  from assms(1,2) have l: "load_rows reader w (CSV_PATH base) = Inr (filter clean_row rows)"
    by (simp add: load_rows_def)
  from summarize_all_ok [OF assms(3)] obtain results where
    s: "summarize_all (filter clean_row rows) QUESTIONS = Inr results"
    and c: "\<forall>res \<in> set results. \<forall>kv \<in> set (fst (snd res)). snd kv \<le> snd (snd res)"
    by blast
  from render_rows_ok [OF c] obtain parts where "render_rows 0 results = Inr parts" by blast
  then have "\<exists>svg. make_svg results (length (filter clean_row rows)) = Inr svg"
    by (simp add: make_svg_def)
  then obtain svg where "make_svg results (length (filter clean_row rows)) = Inr svg" ..
  from main_run [OF l s this assms(4)] show ?thesis by blast
qed

text \<open>
  C8. The output document is determined by the content of the input file: two runs
  that read the same content of the input file and return, in whatever worlds they
  start, leave the same document at the output path. A second run in the world that
  the first run left returns too, and leaves every file as the first run left it.
\<close>

theorem main_deterministic:
  assumes "files w1 (CSV_PATH base) = files w2 (CSV_PATH base)"
    and "main reader base w1 = Inr w1'" and "main reader base w2 = Inr w2'"
  shows "files w1' (OUTPUT_PATH base) = files w2' (OUTPUT_PATH base)
         \<and> files w1' (OUTPUT_PATH base) \<noteq> None
         \<and> (\<exists>w3. main reader base w1' = Inr w3 \<and> files w3 = files w1')"
proof -
  let ?csv = "CSV_PATH base" and ?out = "OUTPUT_PATH base"
  from main_Inr [OF assms(2)] obtain rows results svg where
    l1: "load_rows reader w1 ?csv = Inr rows"
    and s1: "summarize_all rows QUESTIONS = Inr results"
    and m1: "make_svg results (length rows) = Inr svg"
    and wr1: "writable w1 ?out"
    and w1': "w1' = print_line (w1\<lparr>files := (files w1)(?out \<mapsto> svg)\<rparr>) (''Wrote '' @ ?out)"
    by blast
  from main_Inr [OF assms(3)] obtain rows2 results2 svg2 where
    l2: "load_rows reader w2 ?csv = Inr rows2"
    and s2: "summarize_all rows2 QUESTIONS = Inr results2"
    and m2: "make_svg results2 (length rows2) = Inr svg2"
    and w2': "w2' = print_line (w2\<lparr>files := (files w2)(?out \<mapsto> svg2)\<rparr>) (''Wrote '' @ ?out)"
    by blast
  from load_rows_same_file [OF assms(1)] l1 l2 have "rows2 = rows" by simp
  with s1 s2 have "results2 = results" by simp
  with m1 m2 \<open>rows2 = rows\<close> have "svg2 = svg" by simp
  have f1: "files w1' = (files w1)(?out \<mapsto> svg)"
    by (simp add: w1' print_line_def)
  have f2: "files w2' = (files w2)(?out \<mapsto> svg)"
    by (simp add: w2' print_line_def \<open>svg2 = svg\<close>)
  have same: "files w1' ?out = files w2' ?out" and some: "files w1' ?out \<noteq> None"
    by (simp_all add: f1 f2)
  have "files w1' ?csv = files w1 ?csv"
    using paths_differ [of base] by (simp add: f1)
  from load_rows_same_file [OF this] l1 have l3: "load_rows reader w1' ?csv = Inr rows"
    by simp
  have wr3: "writable w1' ?out"
    using wr1 by (simp add: w1' print_line_def)
  have "files (print_line (w1'\<lparr>files := (files w1')(?out \<mapsto> svg)\<rparr>) (''Wrote '' @ ?out))
      = files w1'"
    by (simp add: print_line_def f1)
  with main_run [OF l3 s1 m1 wr3] have "\<exists>w3. main reader base w1' = Inr w3 \<and> files w3 = files w1'"
    by blast
  with same some show ?thesis by blast
qed

theorem main_deterministic_witness:
  \<open>files world_A (CSV_PATH ''/repo'') = files world_B (CSV_PATH ''/repo'')
   \<and> world_A \<noteq> world_B
   \<and> (\<exists>a b. main reader_main ''/repo'' world_A = Inr a
          \<and> main reader_main ''/repo'' world_B = Inr b
          \<and> files a (OUTPUT_PATH ''/repo'') = files b (OUTPUT_PATH ''/repo'')
          \<and> files a (OUTPUT_PATH ''/repo'') \<noteq> None)\<close>
proof -
  have d: \<open>CSV_PATH ''/repo'' \<noteq> OUTPUT_PATH ''/repo''\<close>
    by (rule paths_differ)
  have fa: \<open>files world_A (CSV_PATH ''/repo'') = Some ''export''\<close>
    by (simp add: world_A_def)
  have fb: \<open>files world_B (CSV_PATH ''/repo'') = Some ''export''\<close>
    using d by (simp add: world_B_def)
  have r: \<open>reader_main ''export'' = Inr export_rows\<close>
    by (simp add: reader_main_def)
  have q: "\<forall>q \<in> set QUESTIONS. \<forall>r \<in> set (filter clean_row export_rows). has_string r (fst q)"
    by code_simp
  have wa: \<open>writable world_A (OUTPUT_PATH ''/repo'')\<close>
    and wb: \<open>writable world_B (OUTPUT_PATH ''/repo'')\<close>
    by (simp_all add: world_A_def world_B_def)
  from main_ok [where reader = reader_main, OF fa r q wa] obtain a where a: \<open>main reader_main ''/repo'' world_A = Inr a\<close> ..
  from main_ok [where reader = reader_main, OF fb r q wb] obtain b where b: \<open>main reader_main ''/repo'' world_B = Inr b\<close> ..
  have e: \<open>files world_A (CSV_PATH ''/repo'') = files world_B (CSV_PATH ''/repo'')\<close>
    by (simp add: fa fb)
  have n: "world_A \<noteq> world_B"
    by (simp add: world_A_def world_B_def)
  from main_deterministic [OF e a b] a b e n show ?thesis by blast
qed


end
